theory Spec2Isabelle
  imports Main "HOL-Library.Multiset" "HOL-Library.Monad_Syntax"
begin

section \<open>Disk scheduling: the model of disk\_scheduling.c\<close>

text \<open>
  The six scheduling functions of \<^verbatim>\<open>disk_scheduling.c\<close> and the two routines they share
  (\<^verbatim>\<open>compute_movement\<close>, \<^verbatim>\<open>find_index\<close>) are translated function by function.

  \<^item> A C array is a list. Every array access of the source is a bounds-checked access of
    the model: an index outside the array is undefined behaviour in C and the value
    \<open>None\<close> here, so a function of the model returns \<open>Some\<close> only if every access it made
    was inside its array.
  \<^item> A C \<^verbatim>\<open>int\<close> is an \<open>int\<close>; the three arithmetic operations the source applies to
    cylinder values (\<^verbatim>\<open>-\<close>, \<^verbatim>\<open>abs\<close>, \<^verbatim>\<open>+=\<close>) wrap around at 32 bits, as two's-complement
    hardware does (C leaves signed overflow undefined; no result of 32 bits can be the
    mathematical one there).
  \<^item> Lengths and loop counters that only count upwards from 0 are \<open>nat\<close>; the counters of the
    descending loops, which stop by reaching \<open>-1\<close> (or \<open>idx - 1\<close>), and \<^verbatim>\<open>bestIdx\<close>, which
    starts at \<open>-1\<close>, are \<open>int\<close>.
  \<^item> The array a scheduling function receives through its pointer argument is part of
    the state the function works on, and is handed back next to the \<^verbatim>\<open>Result\<close>, so that
    what the call did to the caller's array can be stated.
\<close>

subsection \<open>Constants and types\<close>

definition NUM_CYLINDERS :: int where
  "NUM_CYLINDERS = 300"

definition NUM_REQUESTS :: nat where
  "NUM_REQUESTS = 20"

text \<open>The capacity of \<^verbatim>\<open>Result.seq\<close> (\<^verbatim>\<open>int seq[50]\<close>).\<close>

definition SEQ_CAPACITY :: nat where
  "SEQ_CAPACITY = 50"

datatype Direction = DIR_LEFT | DIR_RIGHT

text \<open>
  \<^verbatim>\<open>Result\<close>. The field \<open>seq\<close> holds the cells of \<^verbatim>\<open>seq[50]\<close> written so far, cell 0
  first; the cells behind them are indeterminate in C and are never read.
\<close>

record Result =
  seq :: "int list"
  len :: nat
  movement :: int

text \<open>
  The memory a scheduling function works on while it fills its \<^verbatim>\<open>Result r\<close>: \<open>arr\<close> is
  the caller's array (\<^verbatim>\<open>req\<close> or \<^verbatim>\<open>sorted\<close>), \<open>rseq\<close> is \<^verbatim>\<open>r.seq\<close> and \<open>rlen\<close> is \<^verbatim>\<open>r.len\<close>.
\<close>

record mem =
  arr :: "int list"
  rseq :: "int list"
  rlen :: nat

subsection \<open>C integers and arrays\<close>

definition wrap32 :: "int \<Rightarrow> int" where
  "wrap32 x = (x + 2147483648) mod 4294967296 - 2147483648"

definition c_sub :: "int \<Rightarrow> int \<Rightarrow> int" where
  "c_sub a b = wrap32 (a - b)"

definition c_add :: "int \<Rightarrow> int \<Rightarrow> int" where
  "c_add a b = wrap32 (a + b)"

definition c_abs :: "int \<Rightarrow> int" where
  "c_abs x = wrap32 \<bar>x\<bar>"

text \<open>\<^verbatim>\<open>a[i]\<close> as a value.\<close>

definition rd :: "int list \<Rightarrow> int \<Rightarrow> int option" where
  "rd a i = (if 0 \<le> i \<and> i < int (length a) then Some (a ! nat i) else None)"

text \<open>\<^verbatim>\<open>a[i] = v\<close> on an array whose cells all exist (\<^verbatim>\<open>visited\<close>).\<close>

definition wr :: "int list \<Rightarrow> int \<Rightarrow> int \<Rightarrow> int list option" where
  "wr a i v = (if 0 \<le> i \<and> i < int (length a) then Some (a[nat i := v]) else None)"

text \<open>
  \<^verbatim>\<open>r.seq[i] = v\<close>: the index has to be below the capacity. Every loop of the source
  writes the cells 0, 1, 2, ... in this order, so the cell written is the first unwritten
  one or an earlier one; a write further out is outside the model.
\<close>

definition store :: "int list \<Rightarrow> nat \<Rightarrow> int \<Rightarrow> int list option" where
  "store q i v =
     (if i < SEQ_CAPACITY \<and> i \<le> length q
      then Some (if i < length q then q[i := v] else q @ [v])
      else None)"

subsection \<open>compute\_movement\<close>

function movement_loop :: "int list \<Rightarrow> nat \<Rightarrow> nat \<Rightarrow> int \<Rightarrow> int \<Rightarrow> int option" where
  "movement_loop sq n i head tot =
     (if i < n then
        do {
          v \<leftarrow> rd sq (int i);
          movement_loop sq n (i + 1) v (c_add tot (c_abs (c_sub v head)))
        }
      else Some tot)"
  by pat_completeness auto
termination
  by (relation "measure (\<lambda>(sq, n, i, head, tot). n - i)") auto

definition compute_movement :: "int list \<Rightarrow> nat \<Rightarrow> int \<Rightarrow> int option" where
  "compute_movement sq n start = movement_loop sq n 0 start 0"

subsection \<open>FCFS\<close>

function fcfs_loop :: "nat \<Rightarrow> mem \<Rightarrow> mem option" where
  "fcfs_loop i s =
     (if i < NUM_REQUESTS then
        do {
          v \<leftarrow> rd (arr s) (int i);
          q \<leftarrow> store (rseq s) i v;
          fcfs_loop (i + 1) (s\<lparr>rseq := q\<rparr>)
        }
      else Some s)"
  by pat_completeness auto
termination
  by (relation "measure (\<lambda>(i, s). NUM_REQUESTS - i)") auto

text \<open>The last two statements of every scheduling function.\<close>

definition finish :: "mem \<Rightarrow> int \<Rightarrow> (Result \<times> int list) option" where
  "finish s start =
     do {
       m \<leftarrow> compute_movement (rseq s) (rlen s) start;
       Some (\<lparr>seq = rseq s, len = rlen s, movement = m\<rparr>, arr s)
     }"

definition schedule_fcfs :: "int list \<Rightarrow> int \<Rightarrow> (Result \<times> int list) option" where
  "schedule_fcfs req start =
     do {
       s \<leftarrow> fcfs_loop 0 \<lparr>arr = req, rseq = [], rlen = NUM_REQUESTS\<rparr>;
       finish s start
     }"

subsection \<open>SSTF\<close>

text \<open>
  The request count of \<^verbatim>\<open>schedule_sstf\<close> is the macro \<^verbatim>\<open>NUM_REQUESTS\<close>; the loops take it
  as their first argument \<open>n\<close>, and the source's function is the instance at
  \<open>NUM_REQUESTS\<close>. The inner \<^verbatim>\<open>for\<close> loop:
\<close>

function sstf_scan ::
  "nat \<Rightarrow> int list \<Rightarrow> int list \<Rightarrow> int \<Rightarrow> nat \<Rightarrow> int \<Rightarrow> int \<Rightarrow> (int \<times> int) option" where
  "sstf_scan n req visited head i bestDist bestIdx =
     (if i < n then
        do {
          vis \<leftarrow> rd visited (int i);
          if vis = 0 then
            do {
              q \<leftarrow> rd req (int i);
              let d = c_abs (c_sub q head) in
              if d < bestDist then sstf_scan n req visited head (i + 1) d (int i)
              else sstf_scan n req visited head (i + 1) bestDist bestIdx
            }
          else sstf_scan n req visited head (i + 1) bestDist bestIdx
        }
      else Some (bestDist, bestIdx))"
  by pat_completeness auto
termination
  by (relation "measure (\<lambda>(n, req, visited, head, i, bestDist, bestIdx). n - i)") auto

text \<open>The \<^verbatim>\<open>while\<close> loop, with \<open>cnt\<close> for \<^verbatim>\<open>count\<close>; \<^verbatim>\<open>req[bestIdx]\<close> is read once for the two places that use it.\<close>

function sstf_loop :: "nat \<Rightarrow> mem \<Rightarrow> int list \<Rightarrow> int \<Rightarrow> nat \<Rightarrow> mem option" where
  "sstf_loop n s visited head cnt =
     (if cnt < n then
        do {
          best \<leftarrow> sstf_scan n (arr s) visited head 0 1000000000 (- 1);
          visited' \<leftarrow> wr visited (snd best) 1;
          q \<leftarrow> rd (arr s) (snd best);
          sq \<leftarrow> store (rseq s) cnt q;
          sstf_loop n (s\<lparr>rseq := sq\<rparr>) visited' q (cnt + 1)
        }
      else Some s)"
  by pat_completeness auto
termination
  by (relation "measure (\<lambda>(n, s, visited, head, cnt). n - cnt)") auto

text \<open>
  The body of \<^verbatim>\<open>schedule_sstf\<close> for a request count \<open>n\<close>. \<^verbatim>\<open>r.len\<close> is not initialised
  before the loop and not read in it; it is assigned after the loop.
\<close>

definition sstf_body :: "nat \<Rightarrow> int list \<Rightarrow> int \<Rightarrow> (Result \<times> int list) option" where
  "sstf_body n req start =
     do {
       s \<leftarrow> sstf_loop n \<lparr>arr = req, rseq = [], rlen = 0\<rparr> (replicate n 0) start 0;
       finish (s\<lparr>rlen := n\<rparr>) start
     }"

definition schedule_sstf :: "int list \<Rightarrow> int \<Rightarrow> (Result \<times> int list) option" where
  "schedule_sstf req start = sstf_body NUM_REQUESTS req start"

subsection \<open>find\_index\<close>

function find_index_loop :: "int list \<Rightarrow> nat \<Rightarrow> int \<Rightarrow> nat \<Rightarrow> nat option" where
  "find_index_loop srt n start i =
     (if i < n then
        do {
          v \<leftarrow> rd srt (int i);
          if v \<ge> start then Some i else find_index_loop srt n start (i + 1)
        }
      else Some n)"
  by pat_completeness auto
termination
  by (relation "measure (\<lambda>(srt, n, start, i). n - i)") auto

definition find_index :: "int list \<Rightarrow> nat \<Rightarrow> int \<Rightarrow> nat option" where
  "find_index srt n start = find_index_loop srt n start 0"

subsection \<open>The sweeps: SCAN, C-SCAN, LOOK, C-LOOK\<close>

text \<open>\<^verbatim>\<open>r.seq[r.len++] = v\<close>.\<close>

definition emit :: "int \<Rightarrow> mem \<Rightarrow> mem option" where
  "emit v s =
     do {
       q \<leftarrow> store (rseq s) (rlen s) v;
       Some (s\<lparr>rseq := q, rlen := rlen s + 1\<rparr>)
     }"

text \<open>\<^verbatim>\<open>for (int i = lo; i < hi; i++) r.seq[r.len++] = sorted[i];\<close>\<close>

function copy_up :: "nat \<Rightarrow> nat \<Rightarrow> mem \<Rightarrow> mem option" where
  "copy_up i hi s =
     (if i < hi then
        do {
          v \<leftarrow> rd (arr s) (int i);
          s' \<leftarrow> emit v s;
          copy_up (i + 1) hi s'
        }
      else Some s)"
  by pat_completeness auto
termination
  by (relation "measure (\<lambda>(i, hi, s). hi - i)") auto

text \<open>\<^verbatim>\<open>for (int i = hi; i >= lo; i--) r.seq[r.len++] = sorted[i];\<close>\<close>

function copy_down :: "int \<Rightarrow> int \<Rightarrow> mem \<Rightarrow> mem option" where
  "copy_down i lo s =
     (if i \<ge> lo then
        do {
          v \<leftarrow> rd (arr s) i;
          s' \<leftarrow> emit v s;
          copy_down (i - 1) lo s'
        }
      else Some s)"
  by pat_completeness auto
termination
  by (relation "measure (\<lambda>(i, lo, s). nat (i - lo + 1))") auto

definition schedule_scan :: "int list \<Rightarrow> int \<Rightarrow> Direction \<Rightarrow> (Result \<times> int list) option" where
  "schedule_scan srt start dir =
     do {
       idx \<leftarrow> find_index srt NUM_REQUESTS start;
       s \<leftarrow> (if dir = DIR_LEFT then
               do {
                 s1 \<leftarrow> copy_down (int idx - 1) 0 \<lparr>arr = srt, rseq = [], rlen = 0\<rparr>;
                 s2 \<leftarrow> emit 0 s1;
                 copy_up idx NUM_REQUESTS s2
               }
             else
               do {
                 s1 \<leftarrow> copy_up idx NUM_REQUESTS \<lparr>arr = srt, rseq = [], rlen = 0\<rparr>;
                 s2 \<leftarrow> emit (NUM_CYLINDERS - 1) s1;
                 copy_down (int idx - 1) 0 s2
               });
       finish s start
     }"

definition schedule_cscan :: "int list \<Rightarrow> int \<Rightarrow> Direction \<Rightarrow> (Result \<times> int list) option" where
  "schedule_cscan srt start dir =
     do {
       idx \<leftarrow> find_index srt NUM_REQUESTS start;
       s \<leftarrow> (if dir = DIR_RIGHT then
               do {
                 s1 \<leftarrow> copy_up idx NUM_REQUESTS \<lparr>arr = srt, rseq = [], rlen = 0\<rparr>;
                 s2 \<leftarrow> emit (NUM_CYLINDERS - 1) s1;
                 s3 \<leftarrow> emit 0 s2;
                 copy_up 0 idx s3
               }
             else
               do {
                 s1 \<leftarrow> copy_down (int idx - 1) 0 \<lparr>arr = srt, rseq = [], rlen = 0\<rparr>;
                 s2 \<leftarrow> emit 0 s1;
                 s3 \<leftarrow> emit (NUM_CYLINDERS - 1) s2;
                 copy_down (int NUM_REQUESTS - 1) (int idx) s3
               });
       finish s start
     }"

definition schedule_look :: "int list \<Rightarrow> int \<Rightarrow> Direction \<Rightarrow> (Result \<times> int list) option" where
  "schedule_look srt start dir =
     do {
       idx \<leftarrow> find_index srt NUM_REQUESTS start;
       s \<leftarrow> (if dir = DIR_LEFT then
               do {
                 s1 \<leftarrow> copy_down (int idx - 1) 0 \<lparr>arr = srt, rseq = [], rlen = 0\<rparr>;
                 copy_up idx NUM_REQUESTS s1
               }
             else
               do {
                 s1 \<leftarrow> copy_up idx NUM_REQUESTS \<lparr>arr = srt, rseq = [], rlen = 0\<rparr>;
                 copy_down (int idx - 1) 0 s1
               });
       finish s start
     }"

definition schedule_clook :: "int list \<Rightarrow> int \<Rightarrow> Direction \<Rightarrow> (Result \<times> int list) option" where
  "schedule_clook srt start dir =
     do {
       idx \<leftarrow> find_index srt NUM_REQUESTS start;
       s \<leftarrow> (if dir = DIR_RIGHT then
               do {
                 s1 \<leftarrow> copy_up idx NUM_REQUESTS \<lparr>arr = srt, rseq = [], rlen = 0\<rparr>;
                 copy_up 0 idx s1
               }
             else
               do {
                 s1 \<leftarrow> copy_down (int idx - 1) 0 \<lparr>arr = srt, rseq = [], rlen = 0\<rparr>;
                 copy_down (int NUM_REQUESTS - 1) (int idx) s1
               });
       finish s start
     }"

section \<open>What the specification speaks of\<close>

text \<open>
  The sum the specification gives for the head movement: \<open>\<bar>seq[i] - head_before_i\<bar>\<close> summed
  over the sequence, the head before the first entry being the start position and the head
  before a later entry being the entry in front of it. The sum is over unbounded integers.
\<close>

fun movement_sum :: "int \<Rightarrow> int list \<Rightarrow> int" where
  "movement_sum h [] = 0"
| "movement_sum h (x # xs) = \<bar>x - h\<bar> + movement_sum x xs"

text \<open>A valid cylinder number: \<open>0 \<le> c \<le> NUM_CYLINDERS - 1\<close>.\<close>

definition in_range :: "int \<Rightarrow> bool" where
  "in_range c = (0 \<le> c \<and> c < NUM_CYLINDERS)"

text \<open>
  The split index of the specification: the number of leading entries of the sorted list
  that lie below the reference position.
\<close>

definition split_index :: "int list \<Rightarrow> int \<Rightarrow> nat" where
  "split_index srt ref = length (takeWhile (\<lambda>v. v < ref) srt)"

text \<open>The physical boundary in the direction of initial travel.\<close>

fun boundary :: "Direction \<Rightarrow> int" where
  "boundary DIR_LEFT = 0"
| "boundary DIR_RIGHT = NUM_CYLINDERS - 1"

text \<open>
  The greedy discipline of SSTF in the specification's words. \<open>greedy_order req V head ks\<close>
  says that the indices \<open>ks\<close> are selected one after the other, starting with the head at
  \<open>head\<close> and the requests with index in \<open>V\<close> already serviced: each selected index is
  unserviced, its distance from the current head is minimal among the unserviced ones,
  among equidistant ones it is the smallest index, and the head moves to its cylinder.
\<close>

fun greedy_order :: "int list \<Rightarrow> nat set \<Rightarrow> int \<Rightarrow> nat list \<Rightarrow> bool" where
  "greedy_order req V head [] = True"
| "greedy_order req V head (k # ks) =
     (k < length req \<and> k \<notin> V \<and>
      (\<forall>j<length req. j \<notin> V \<longrightarrow>
         \<bar>req ! k - head\<bar> < \<bar>req ! j - head\<bar> \<or>
         (\<bar>req ! k - head\<bar> = \<bar>req ! j - head\<bar> \<and> k \<le> j)) \<and>
      greedy_order req (insert k V) (req ! k) ks)"

section \<open>Lemmas on the shared routines\<close>

text \<open>
  The loops are unfolded one iteration at a time, by \<open>subst\<close>; their equations are not
  simplification rules.
\<close>

declare movement_loop.simps [simp del] fcfs_loop.simps [simp del] sstf_scan.simps [simp del]
  sstf_loop.simps [simp del] find_index_loop.simps [simp del] copy_up.simps [simp del]
  copy_down.simps [simp del]

subsection \<open>Arithmetic without overflow, and the movement loop\<close>

lemma wrap32_id: "- 2147483648 \<le> x \<Longrightarrow> x \<le> 2147483647 \<Longrightarrow> wrap32 x = x"
  by (simp add: wrap32_def)

lemma movement_sum_nonneg: "0 \<le> movement_sum h xs"
  by (induction xs arbitrary: h) auto

lemma c_step_exact:
  assumes "0 \<le> tot" "tot + \<bar>v - h\<bar> \<le> 2147483647"
  shows "c_add tot (c_abs (c_sub v h)) = tot + \<bar>v - h\<bar>"
proof -
  have a: "\<bar>v - h\<bar> \<le> 2147483647" using assms by linarith
  then have "c_sub v h = v - h" unfolding c_sub_def by (intro wrap32_id) linarith+
  moreover have "c_abs (v - h) = \<bar>v - h\<bar>" unfolding c_abs_def using a by (intro wrap32_id) linarith+
  moreover have "c_add tot \<bar>v - h\<bar> = tot + \<bar>v - h\<bar>" unfolding c_add_def using assms by (intro wrap32_id) linarith+
  ultimately show ?thesis by simp
qed

lemma rd_nat: "i < length a \<Longrightarrow> rd a (int i) = Some (a ! i)"
  by (simp add: rd_def)

lemma movement_loop_exact:
  assumes "i \<le> length sq" "0 \<le> tot" "tot + movement_sum h (drop i sq) \<le> 2147483647"
  shows "movement_loop sq (length sq) i h tot = Some (tot + movement_sum h (drop i sq))"
  using assms
proof (induction "length sq - i" arbitrary: i h tot)
  case 0
  then show ?case by (subst movement_loop.simps) simp
next
  case (Suc k)
  then have lt: "i < length sq" by simp
  then have d: "drop i sq = sq ! i # drop (Suc i) sq" by (simp add: Cons_nth_drop_Suc)
  have nn: "0 \<le> movement_sum (sq ! i) (drop (Suc i) sq)" by (rule movement_sum_nonneg)
  have b: "tot + \<bar>sq ! i - h\<bar> \<le> 2147483647" using Suc.prems(3) nn unfolding d by simp
  have st: "c_add tot (c_abs (c_sub (sq ! i) h)) = tot + \<bar>sq ! i - h\<bar>"
    using Suc.prems(2) b by (rule c_step_exact)
  have ih: "movement_loop sq (length sq) (Suc i) (sq ! i) (tot + \<bar>sq ! i - h\<bar>)
      = Some (tot + \<bar>sq ! i - h\<bar> + movement_sum (sq ! i) (drop (Suc i) sq))"
    using Suc.hyps(2) lt Suc.prems(2,3) unfolding d
    by (intro Suc.hyps(1)) auto
  show ?case
    using lt by (subst movement_loop.simps) (simp add: rd_nat st ih d)
qed

lemma compute_movement_exact:
  "movement_sum start sq \<le> 2147483647 \<Longrightarrow> compute_movement sq (length sq) start = Some (movement_sum start sq)"
  unfolding compute_movement_def using movement_loop_exact[of 0 sq 0 start] by simp

lemma movement_loop_total:
  "n \<le> length sq \<Longrightarrow> \<exists>m. movement_loop sq n i h tot = Some m"
proof (induction "n - i" arbitrary: i h tot)
  case 0
  then show ?case by (subst movement_loop.simps) simp
next
  case (Suc k)
  then have lt: "i < n" "i < length sq" by simp_all
  have "\<exists>m. movement_loop sq n (Suc i) (sq ! i) (c_add tot (c_abs (c_sub (sq ! i) h))) = Some m"
    using Suc by (intro Suc.hyps(1)) auto
  then show ?case
    using lt by (subst movement_loop.simps) (simp add: rd_nat)
qed

lemma movement_sum_as_sum:
  "movement_sum start sq = (\<Sum>i<length sq. \<bar>sq ! i - (if i = 0 then start else sq ! (i - 1))\<bar>)"
proof (induction sq arbitrary: start)
  case Nil
  then show ?case by simp
next
  case (Cons x xs)
  have "(\<Sum>i<length (x # xs). \<bar>(x # xs) ! i - (if i = 0 then start else (x # xs) ! (i - 1))\<bar>)
      = \<bar>x - start\<bar> + (\<Sum>i<length xs. \<bar>xs ! i - (if i = 0 then x else xs ! (i - 1))\<bar>)"
  proof -
    have "(\<Sum>i<length (x # xs). \<bar>(x # xs) ! i - (if i = 0 then start else (x # xs) ! (i - 1))\<bar>)
      = \<bar>x - start\<bar> + (\<Sum>i<length xs. \<bar>(x # xs) ! Suc i - (x # xs) ! i\<bar>)"
      by (simp only: length_Cons sum.lessThan_Suc_shift) simp
    also have "(\<Sum>i<length xs. \<bar>(x # xs) ! Suc i - (x # xs) ! i\<bar>)
      = (\<Sum>i<length xs. \<bar>xs ! i - (if i = 0 then x else xs ! (i - 1))\<bar>)"
      by (intro sum.cong) (auto simp: nth_Cons')
    finally show ?thesis .
  qed
  then show ?case using Cons.IH[of x] by simp
qed

lemma movement_sum_append:
  "movement_sum h (xs @ ys) = movement_sum h xs + movement_sum (last (h # xs)) ys"
  by (induction xs arbitrary: h) auto

lemma movement_sum_bound:
  "in_range h \<Longrightarrow> \<forall>x\<in>set xs. in_range x \<Longrightarrow> movement_sum h xs \<le> (NUM_CYLINDERS - 1) * int (length xs)"
proof (induction xs arbitrary: h)
  case Nil
  then show ?case by simp
next
  case (Cons x xs)
  have "\<bar>x - h\<bar> \<le> NUM_CYLINDERS - 1" using Cons.prems by (auto simp: in_range_def)
  moreover have "movement_sum x xs \<le> (NUM_CYLINDERS - 1) * int (length xs)"
    using Cons.prems by (intro Cons.IH) auto
  ultimately show ?case by (simp add: algebra_simps)
qed

lemma capacity_no_overflow:
  assumes "in_range start" "\<forall>x\<in>set sq. in_range x" "length sq \<le> SEQ_CAPACITY"
  shows "movement_sum start sq \<le> 2147483647"
proof -
  have "movement_sum start sq \<le> (NUM_CYLINDERS - 1) * int (length sq)"
    using assms(1,2) by (rule movement_sum_bound)
  also have "\<dots> \<le> 299 * 50"
    using assms(3) by (simp add: NUM_CYLINDERS_def SEQ_CAPACITY_def)
  finally show ?thesis by simp
qed

section \<open>The movement accumulator\<close>

text \<open>
  C5, as amended. \<^verbatim>\<open>compute_movement(seq, L, start)\<close> returns the sum over \<open>i < L\<close> of
  \<open>\<bar>seq[i] - head_before_i\<bar>\<close>, with \<open>head_before_0 = start\<close> and \<open>head_before_i = seq[i-1]\<close>,
  whenever that sum does not exceed \<^verbatim>\<open>INT_MAX\<close> = 2147483647, and the result is then
  non-negative; this is so for every sequence of at most 50 valid cylinders and a valid
  start. The empty sequence gives 0 and a one-element sequence \<open>[x]\<close> gives \<open>\<bar>x - start\<bar>\<close>
  when that fits an \<^verbatim>\<open>int\<close>.
\<close>

theorem compute_movement_sum:
  "compute_movement [] 0 start = Some 0 \<and>
   (\<bar>x - start\<bar> \<le> 2147483647 \<longrightarrow> compute_movement [x] 1 start = Some \<bar>x - start\<bar>) \<and>
   ((\<Sum>i<length sq. \<bar>sq ! i - (if i = 0 then start else sq ! (i - 1))\<bar>) \<le> 2147483647 \<longrightarrow>
      (\<exists>m. compute_movement sq (length sq) start = Some m \<and>
           m = (\<Sum>i<length sq. \<bar>sq ! i - (if i = 0 then start else sq ! (i - 1))\<bar>) \<and> 0 \<le> m)) \<and>
   (in_range start \<and> (\<forall>c\<in>set sq. in_range c) \<and> length sq \<le> SEQ_CAPACITY \<longrightarrow>
      compute_movement sq (length sq) start =
        Some (\<Sum>i<length sq. \<bar>sq ! i - (if i = 0 then start else sq ! (i - 1))\<bar>))"
proof (intro conjI impI)
  show "compute_movement [] 0 start = Some 0"
    using compute_movement_exact[of start "[]"] by simp
next
  assume "\<bar>x - start\<bar> \<le> 2147483647"
  then show "compute_movement [x] 1 start = Some \<bar>x - start\<bar>"
    using compute_movement_exact[of start "[x]"] by simp
next
  assume a: "(\<Sum>i<length sq. \<bar>sq ! i - (if i = 0 then start else sq ! (i - 1))\<bar>) \<le> 2147483647"
  then have "compute_movement sq (length sq) start = Some (movement_sum start sq)"
    by (intro compute_movement_exact) (simp add: movement_sum_as_sum)
  then show "\<exists>m. compute_movement sq (length sq) start = Some m \<and>
           m = (\<Sum>i<length sq. \<bar>sq ! i - (if i = 0 then start else sq ! (i - 1))\<bar>) \<and> 0 \<le> m"
    using movement_sum_nonneg[of start sq] by (simp add: movement_sum_as_sum)
next
  assume "in_range start \<and> (\<forall>c\<in>set sq. in_range c) \<and> length sq \<le> SEQ_CAPACITY"
  then have "movement_sum start sq \<le> 2147483647"
    by (intro capacity_no_overflow) auto
  then have "compute_movement sq (length sq) start = Some (movement_sum start sq)"
    by (rule compute_movement_exact)
  then show "compute_movement sq (length sq) start =
        Some (\<Sum>i<length sq. \<bar>sq ! i - (if i = 0 then start else sq ! (i - 1))\<bar>)"
    by (simp add: movement_sum_as_sum)
qed

text \<open>The theorem at a one-element sequence and at three valid cylinders.\<close>

theorem compute_movement_sum_witness:
  "\<bar>(65::int) - 53\<bar> \<le> 2147483647 \<and> compute_movement [65] 1 53 = Some 12 \<and>
   in_range 53 \<and> in_range 98 \<and> in_range 183 \<and> in_range 37 \<and>
   length [98, 183, 37 :: int] \<le> SEQ_CAPACITY \<and>
   compute_movement [98, 183, 37] 3 53 = Some 276"
  using compute_movement_sum[of 53 65 "[98, 183, 37]"]
  by (simp add: in_range_def NUM_CYLINDERS_def SEQ_CAPACITY_def numeral_3_eq_3)

text \<open>
  Without the bound the statement fails: for the one-element sequence \<open>[INT_MIN]\<close> and
  start 0 the distance \<open>\<bar>INT_MIN - 0\<bar>\<close> = 2147483648 is no \<^verbatim>\<open>int\<close>, and the 32-bit arithmetic of
  \<^verbatim>\<open>abs\<close> returns \<open>INT_MIN\<close>, a negative total.
\<close>

theorem compute_movement_overflow:
  "compute_movement [- 2147483648] 1 0 = Some (- 2147483648) \<and>
   compute_movement [- 2147483648] 1 0 \<noteq> Some \<bar>- 2147483648 - 0\<bar> \<and>
   \<not> (0::int) \<le> - 2147483648"
  by code_simp

section \<open>The split index\<close>

lemma find_index_loop_takeWhile:
  assumes "n \<le> length srt" "i \<le> n"
  shows "find_index_loop srt n start i =
           Some (i + length (takeWhile (\<lambda>v. v < start) (take (n - i) (drop i srt))))"
  using assms
proof (induction "n - i" arbitrary: i)
  case 0
  then show ?case by (subst find_index_loop.simps) simp
next
  case (Suc k)
  then have lt: "i < n" "i < length srt" by simp_all
  have td: "take (n - i) (drop i srt) = srt ! i # take (n - Suc i) (drop (Suc i) srt)"
    using lt by (metis Cons_nth_drop_Suc Suc_diff_Suc take_Suc_Cons)
  have ih: "find_index_loop srt n start (Suc i) =
      Some (Suc i + length (takeWhile (\<lambda>v. v < start) (take (n - Suc i) (drop (Suc i) srt))))"
    using Suc by (intro Suc.hyps(1)) auto
  show ?case
    using lt by (subst find_index_loop.simps) (simp add: rd_nat td ih)
qed

lemma find_index_takeWhile:
  "n \<le> length srt \<Longrightarrow> find_index srt n start = Some (length (takeWhile (\<lambda>v. v < start) (take n srt)))"
  unfolding find_index_def using find_index_loop_takeWhile[of n srt 0 start] by simp

lemma split_below:
  "j < length (takeWhile (\<lambda>v. v < (ref::int)) xs) \<Longrightarrow> xs ! j < ref"
  using nth_mem[of j "takeWhile (\<lambda>v. v < ref) xs"] set_takeWhileD[of "xs ! j" "\<lambda>v. v < ref" xs]
  by (simp add: takeWhile_nth)

lemma split_at:
  "length (takeWhile (\<lambda>v. v < (ref::int)) xs) < length xs \<Longrightarrow>
     ref \<le> xs ! length (takeWhile (\<lambda>v. v < ref) xs)"
  using nth_length_takeWhile[of "\<lambda>v. v < ref" xs] by simp

lemma split_above:
  assumes "sorted xs" "length (takeWhile (\<lambda>v. v < (ref::int)) xs) \<le> j" "j < length xs"
  shows "ref \<le> xs ! j"
proof -
  let ?k = "length (takeWhile (\<lambda>v. v < ref) xs)"
  have "?k < length xs" using assms by simp
  then have "ref \<le> xs ! ?k" by (rule split_at)
  also have "xs ! ?k \<le> xs ! j" using assms by (intro sorted_nth_mono) auto
  finally show ?thesis .
qed

text \<open>
  C6. For an ascending list of \<open>n\<close> requests, \<^verbatim>\<open>find_index(sorted, n, reference)\<close> returns
  an index \<open>k \<le> n\<close> that is the smallest index holding a value \<open>\<ge> reference\<close> (every
  index below \<open>k\<close> holds a smaller value, and \<open>k\<close> itself a value \<open>\<ge> reference\<close> when
  \<open>k < n\<close>), that is \<open>n\<close> when no element is \<open>\<ge> reference\<close>, and that partitions the list:
  all indices in \<open>[0, k)\<close> hold values below the reference, all indices in \<open>[k, n)\<close> values
  at or above it.
\<close>

theorem find_index_split:
  assumes "sorted srt"
  shows "\<exists>k. find_index srt (length srt) ref = Some k \<and> k \<le> length srt \<and>
           (\<forall>j<k. srt ! j < ref) \<and>
           (k < length srt \<longrightarrow> ref \<le> srt ! k) \<and>
           (\<forall>j<length srt. ref \<le> srt ! j \<longrightarrow> k \<le> j) \<and>
           ((\<forall>j<length srt. srt ! j < ref) \<longrightarrow> k = length srt) \<and>
           (\<forall>j. k \<le> j \<and> j < length srt \<longrightarrow> ref \<le> srt ! j)"
proof -
  let ?k = "length (takeWhile (\<lambda>v. v < ref) srt)"
  have f: "find_index srt (length srt) ref = Some ?k"
    using find_index_takeWhile[of "length srt" srt ref] by simp
  have le: "?k \<le> length srt" by (rule length_takeWhile_le)
  have below: "\<forall>j<?k. srt ! j < ref" using split_below by blast
  have at: "?k < length srt \<longrightarrow> ref \<le> srt ! ?k" using split_at by blast
  have least: "\<forall>j<length srt. ref \<le> srt ! j \<longrightarrow> ?k \<le> j"
    using below by (meson not_le_imp_less not_less)
  have none: "(\<forall>j<length srt. srt ! j < ref) \<longrightarrow> ?k = length srt"
    using at le by (metis le_neq_implies_less not_less)
  have above: "\<forall>j. ?k \<le> j \<and> j < length srt \<longrightarrow> ref \<le> srt ! j"
    using split_above[OF assms] by blast
  show ?thesis using f le below at least none above by blast
qed

text \<open>
  The theorem at the list 10, 50, 50, 120 and the reference 50: the index is 1, the first
  of the two equal entries.
\<close>

theorem find_index_split_witness:
  "sorted [10, 50, 50, 120 :: int] \<and> find_index [10, 50, 50, 120] (length [10, 50, 50, 120 :: int]) 50 = Some 1"
proof -
  have s: "sorted [10, 50, 50, 120 :: int]" by simp
  obtain k where k: "find_index [10, 50, 50, 120] (length [10, 50, 50, 120 :: int]) 50 = Some k"
    "\<forall>j<k. [10, 50, 50, 120 :: int] ! j < 50" "k < length [10, 50, 50, 120 :: int] \<longrightarrow> 50 \<le> [10, 50, 50, 120 :: int] ! k"
    "\<forall>j<length [10, 50, 50, 120 :: int]. 50 \<le> [10, 50, 50, 120 :: int] ! j \<longrightarrow> k \<le> j"
    using find_index_split[OF s, of 50] by blast
  have "k \<le> 1" using k(4) by (simp add: nth_Cons')
  moreover have "k \<noteq> 0"
  proof
    assume "k = 0"
    with k(3) show False by simp
  qed
  ultimately have "k = 1" by simp
  then show ?thesis using k(1) s by simp
qed

section \<open>The sweeps\<close>

subsection \<open>The copy loops\<close>

lemma emit_append:
  "rlen s = length (rseq s) \<Longrightarrow> length (rseq s) < SEQ_CAPACITY \<Longrightarrow>
     emit v s = Some (s\<lparr>rseq := rseq s @ [v], rlen := Suc (rlen s)\<rparr>)"
  by (simp add: emit_def store_def)

lemma copy_up_slice:
  assumes "hi \<le> length (arr s)" "rlen s = length (rseq s)"
    "length (rseq s) + (hi - i) \<le> SEQ_CAPACITY"
  shows "copy_up i hi s =
           Some (s\<lparr>rseq := rseq s @ take (hi - i) (drop i (arr s)), rlen := rlen s + (hi - i)\<rparr>)"
  using assms
proof (induction "hi - i" arbitrary: i s)
  case 0
  then show ?case by (subst copy_up.simps) simp
next
  case (Suc k)
  then have lt: "i < hi" "i < length (arr s)" by simp_all
  let ?s' = "s\<lparr>rseq := rseq s @ [arr s ! i], rlen := Suc (rlen s)\<rparr>"
  have e: "emit (arr s ! i) s = Some ?s'"
    using Suc.prems lt by (intro emit_append) auto
  have td: "take (hi - i) (drop i (arr s)) = arr s ! i # take (hi - Suc i) (drop (Suc i) (arr s))"
    using lt by (metis Cons_nth_drop_Suc Suc_diff_Suc take_Suc_Cons)
  have ih: "copy_up (Suc i) hi ?s' =
      Some (?s'\<lparr>rseq := rseq ?s' @ take (hi - Suc i) (drop (Suc i) (arr ?s')),
                 rlen := rlen ?s' + (hi - Suc i)\<rparr>)"
    using Suc.prems Suc.hyps(2) lt by (intro Suc.hyps(1)) auto
  show ?case
    using lt by (subst copy_up.simps) (simp add: rd_nat e ih td)
qed

lemma copy_down_slice:
  assumes "lo \<le> hi" "hi \<le> length (arr s)" "rlen s = length (rseq s)"
    "length (rseq s) + (hi - lo) \<le> SEQ_CAPACITY"
  shows "copy_down (int hi - 1) (int lo) s =
           Some (s\<lparr>rseq := rseq s @ rev (take (hi - lo) (drop lo (arr s))), rlen := rlen s + (hi - lo)\<rparr>)"
  using assms
proof (induction "hi - lo" arbitrary: hi s)
  case 0
  then show ?case by (subst copy_down.simps) simp
next
  case (Suc k)
  then obtain h where h: "hi = Suc h" "lo \<le> h" "h < length (arr s)" "k = h - lo"
    by (cases hi) auto
  let ?s' = "s\<lparr>rseq := rseq s @ [arr s ! h], rlen := Suc (rlen s)\<rparr>"
  have e: "emit (arr s ! h) s = Some ?s'"
    using Suc.prems h by (intro emit_append) auto
  have td: "take (Suc (h - lo)) (drop lo (arr s)) = take (h - lo) (drop lo (arr s)) @ [arr s ! h]"
    using h by (simp add: take_Suc_conv_app_nth)
  have ih: "copy_down (int h - 1) (int lo) ?s' =
      Some (?s'\<lparr>rseq := rseq ?s' @ rev (take (h - lo) (drop lo (arr ?s'))),
                 rlen := rlen ?s' + (h - lo)\<rparr>)"
    using Suc.prems h by (intro Suc.hyps(1)) auto
  have r: "rd (arr s) (int h) = Some (arr s ! h)" using h by (simp add: rd_nat)
  show ?case
    unfolding h(1) using h
    by (subst copy_down.simps) (simp add: r e ih td Suc_diff_le)
qed

subsection \<open>The end of every scheduling function\<close>

lemma finish_total:
  assumes "rlen s = length (rseq s)"
  shows "\<exists>m. finish s start = Some (\<lparr>seq = rseq s, len = length (rseq s), movement = m\<rparr>, arr s)"
proof -
  obtain m where "compute_movement (rseq s) (length (rseq s)) start = Some m"
    unfolding compute_movement_def using movement_loop_total[of "length (rseq s)" "rseq s"] by blast
  then show ?thesis using assms by (simp add: finish_def)
qed

lemma finish_exact:
  assumes "rlen s = length (rseq s)" "movement_sum start (rseq s) \<le> 2147483647"
  shows "finish s start =
           Some (\<lparr>seq = rseq s, len = length (rseq s), movement = movement_sum start (rseq s)\<rparr>, arr s)"
  using assms compute_movement_exact[of start "rseq s"] by (simp add: finish_def)

subsection \<open>The sweeps up to their last two statements\<close>

lemma find_index_split_index:
  "length srt = NUM_REQUESTS \<Longrightarrow> find_index srt NUM_REQUESTS start = Some (split_index srt start)"
  using find_index_takeWhile[of NUM_REQUESTS srt start] by (simp add: split_index_def)

lemma split_index_le: "split_index srt start \<le> length srt"
  unfolding split_index_def by (rule length_takeWhile_le)

lemma requests_fit: "NUM_REQUESTS + 2 \<le> SEQ_CAPACITY"
  by (simp add: NUM_REQUESTS_def SEQ_CAPACITY_def)

lemma scan_left_closed:
  assumes "length srt = NUM_REQUESTS"
  shows "schedule_scan srt start DIR_LEFT =
           finish \<lparr>arr = srt,
                   rseq = rev (take (split_index srt start) srt) @ 0 # drop (split_index srt start) srt,
                   rlen = NUM_REQUESTS + 1\<rparr> start"
proof -
  let ?k = "split_index srt start"
  have k: "?k \<le> NUM_REQUESTS" using split_index_le[of srt start] assms by simp
  let ?s0 = "\<lparr>arr = srt, rseq = [], rlen = 0\<rparr>"
  let ?s1 = "\<lparr>arr = srt, rseq = rev (take ?k srt), rlen = ?k\<rparr>"
  let ?s2 = "\<lparr>arr = srt, rseq = rev (take ?k srt) @ [0], rlen = Suc ?k\<rparr>"
  have 1: "copy_down (int ?k - 1) 0 ?s0 = Some ?s1"
    using copy_down_slice[of 0 ?k ?s0] k assms requests_fit by simp
  have 2: "emit 0 ?s1 = Some ?s2"
    using emit_append[of ?s1 0] k assms requests_fit by simp
  have 3: "copy_up ?k NUM_REQUESTS ?s2 =
      Some \<lparr>arr = srt, rseq = rev (take ?k srt) @ 0 # drop ?k srt, rlen = NUM_REQUESTS + 1\<rparr>"
    using copy_up_slice[of NUM_REQUESTS ?s2 ?k] k assms requests_fit by simp
  show ?thesis
    by (simp add: schedule_scan_def find_index_split_index[OF assms] 1 2 3)
qed

lemma scan_right_closed:
  assumes "length srt = NUM_REQUESTS"
  shows "schedule_scan srt start DIR_RIGHT =
           finish \<lparr>arr = srt,
                   rseq = drop (split_index srt start) srt @ (NUM_CYLINDERS - 1) # rev (take (split_index srt start) srt),
                   rlen = NUM_REQUESTS + 1\<rparr> start"
proof -
  let ?k = "split_index srt start"
  have k: "?k \<le> NUM_REQUESTS" using split_index_le[of srt start] assms by simp
  let ?s0 = "\<lparr>arr = srt, rseq = [], rlen = 0\<rparr>"
  let ?s1 = "\<lparr>arr = srt, rseq = drop ?k srt, rlen = NUM_REQUESTS - ?k\<rparr>"
  let ?s2 = "\<lparr>arr = srt, rseq = drop ?k srt @ [NUM_CYLINDERS - 1], rlen = Suc (NUM_REQUESTS - ?k)\<rparr>"
  have 1: "copy_up ?k NUM_REQUESTS ?s0 = Some ?s1"
    using copy_up_slice[of NUM_REQUESTS ?s0 ?k] k assms requests_fit by simp
  have 2: "emit (NUM_CYLINDERS - 1) ?s1 = Some ?s2"
    using emit_append[of ?s1 "NUM_CYLINDERS - 1"] k assms requests_fit by simp
  have 3: "copy_down (int ?k - 1) 0 ?s2 =
      Some \<lparr>arr = srt, rseq = drop ?k srt @ (NUM_CYLINDERS - 1) # rev (take ?k srt), rlen = NUM_REQUESTS + 1\<rparr>"
    using copy_down_slice[of 0 ?k ?s2] k assms requests_fit by simp
  show ?thesis
    by (simp add: schedule_scan_def find_index_split_index[OF assms] 1 2 3)
qed

lemma cscan_right_closed:
  assumes "length srt = NUM_REQUESTS"
  shows "schedule_cscan srt start DIR_RIGHT =
           finish \<lparr>arr = srt,
                   rseq = drop (split_index srt start) srt @ (NUM_CYLINDERS - 1) # 0 # take (split_index srt start) srt,
                   rlen = NUM_REQUESTS + 2\<rparr> start"
proof -
  let ?k = "split_index srt start"
  have k: "?k \<le> NUM_REQUESTS" using split_index_le[of srt start] assms by simp
  let ?s0 = "\<lparr>arr = srt, rseq = [], rlen = 0\<rparr>"
  let ?s1 = "\<lparr>arr = srt, rseq = drop ?k srt, rlen = NUM_REQUESTS - ?k\<rparr>"
  let ?s2 = "\<lparr>arr = srt, rseq = drop ?k srt @ [NUM_CYLINDERS - 1], rlen = Suc (NUM_REQUESTS - ?k)\<rparr>"
  let ?s3 = "\<lparr>arr = srt, rseq = drop ?k srt @ [NUM_CYLINDERS - 1, 0], rlen = Suc (Suc (NUM_REQUESTS - ?k))\<rparr>"
  have 1: "copy_up ?k NUM_REQUESTS ?s0 = Some ?s1"
    using copy_up_slice[of NUM_REQUESTS ?s0 ?k] k assms requests_fit by simp
  have 2: "emit (NUM_CYLINDERS - 1) ?s1 = Some ?s2"
    using emit_append[of ?s1 "NUM_CYLINDERS - 1"] k assms requests_fit by simp
  have 3: "emit 0 ?s2 = Some ?s3"
    using emit_append[of ?s2 0] k assms requests_fit by simp
  have 4: "copy_up 0 ?k ?s3 =
      Some \<lparr>arr = srt, rseq = drop ?k srt @ (NUM_CYLINDERS - 1) # 0 # take ?k srt, rlen = NUM_REQUESTS + 2\<rparr>"
    using copy_up_slice[of ?k ?s3 0] k assms requests_fit by simp
  show ?thesis
    by (simp add: schedule_cscan_def find_index_split_index[OF assms] 1 2 3 4)
qed

lemma cscan_left_closed:
  assumes "length srt = NUM_REQUESTS"
  shows "schedule_cscan srt start DIR_LEFT =
           finish \<lparr>arr = srt,
                   rseq = rev (take (split_index srt start) srt) @ 0 # (NUM_CYLINDERS - 1) # rev (drop (split_index srt start) srt),
                   rlen = NUM_REQUESTS + 2\<rparr> start"
proof -
  let ?k = "split_index srt start"
  have k: "?k \<le> NUM_REQUESTS" using split_index_le[of srt start] assms by simp
  let ?s0 = "\<lparr>arr = srt, rseq = [], rlen = 0\<rparr>"
  let ?s1 = "\<lparr>arr = srt, rseq = rev (take ?k srt), rlen = ?k\<rparr>"
  let ?s2 = "\<lparr>arr = srt, rseq = rev (take ?k srt) @ [0], rlen = Suc ?k\<rparr>"
  let ?s3 = "\<lparr>arr = srt, rseq = rev (take ?k srt) @ [0, NUM_CYLINDERS - 1], rlen = Suc (Suc ?k)\<rparr>"
  have 1: "copy_down (int ?k - 1) 0 ?s0 = Some ?s1"
    using copy_down_slice[of 0 ?k ?s0] k assms requests_fit by simp
  have 2: "emit 0 ?s1 = Some ?s2"
    using emit_append[of ?s1 0] k assms requests_fit by simp
  have 3: "emit (NUM_CYLINDERS - 1) ?s2 = Some ?s3"
    using emit_append[of ?s2 "NUM_CYLINDERS - 1"] k assms requests_fit by simp
  have 4: "copy_down (int NUM_REQUESTS - 1) (int ?k) ?s3 =
      Some \<lparr>arr = srt, rseq = rev (take ?k srt) @ 0 # (NUM_CYLINDERS - 1) # rev (drop ?k srt), rlen = NUM_REQUESTS + 2\<rparr>"
    using copy_down_slice[of ?k NUM_REQUESTS ?s3] k assms requests_fit by simp
  show ?thesis
    by (simp add: schedule_cscan_def find_index_split_index[OF assms] 1 2 3 4)
qed

lemma look_left_closed:
  assumes "length srt = NUM_REQUESTS"
  shows "schedule_look srt start DIR_LEFT =
           finish \<lparr>arr = srt,
                   rseq = rev (take (split_index srt start) srt) @ drop (split_index srt start) srt,
                   rlen = NUM_REQUESTS\<rparr> start"
proof -
  let ?k = "split_index srt start"
  have k: "?k \<le> NUM_REQUESTS" using split_index_le[of srt start] assms by simp
  let ?s0 = "\<lparr>arr = srt, rseq = [], rlen = 0\<rparr>"
  let ?s1 = "\<lparr>arr = srt, rseq = rev (take ?k srt), rlen = ?k\<rparr>"
  have 1: "copy_down (int ?k - 1) 0 ?s0 = Some ?s1"
    using copy_down_slice[of 0 ?k ?s0] k assms requests_fit by simp
  have 2: "copy_up ?k NUM_REQUESTS ?s1 =
      Some \<lparr>arr = srt, rseq = rev (take ?k srt) @ drop ?k srt, rlen = NUM_REQUESTS\<rparr>"
    using copy_up_slice[of NUM_REQUESTS ?s1 ?k] k assms requests_fit by simp
  show ?thesis
    by (simp add: schedule_look_def find_index_split_index[OF assms] 1 2)
qed

lemma look_right_closed:
  assumes "length srt = NUM_REQUESTS"
  shows "schedule_look srt start DIR_RIGHT =
           finish \<lparr>arr = srt,
                   rseq = drop (split_index srt start) srt @ rev (take (split_index srt start) srt),
                   rlen = NUM_REQUESTS\<rparr> start"
proof -
  let ?k = "split_index srt start"
  have k: "?k \<le> NUM_REQUESTS" using split_index_le[of srt start] assms by simp
  let ?s0 = "\<lparr>arr = srt, rseq = [], rlen = 0\<rparr>"
  let ?s1 = "\<lparr>arr = srt, rseq = drop ?k srt, rlen = NUM_REQUESTS - ?k\<rparr>"
  have 1: "copy_up ?k NUM_REQUESTS ?s0 = Some ?s1"
    using copy_up_slice[of NUM_REQUESTS ?s0 ?k] k assms requests_fit by simp
  have 2: "copy_down (int ?k - 1) 0 ?s1 =
      Some \<lparr>arr = srt, rseq = drop ?k srt @ rev (take ?k srt), rlen = NUM_REQUESTS\<rparr>"
    using copy_down_slice[of 0 ?k ?s1] k assms requests_fit by simp
  show ?thesis
    by (simp add: schedule_look_def find_index_split_index[OF assms] 1 2)
qed

lemma clook_right_closed:
  assumes "length srt = NUM_REQUESTS"
  shows "schedule_clook srt start DIR_RIGHT =
           finish \<lparr>arr = srt,
                   rseq = drop (split_index srt start) srt @ take (split_index srt start) srt,
                   rlen = NUM_REQUESTS\<rparr> start"
proof -
  let ?k = "split_index srt start"
  have k: "?k \<le> NUM_REQUESTS" using split_index_le[of srt start] assms by simp
  let ?s0 = "\<lparr>arr = srt, rseq = [], rlen = 0\<rparr>"
  let ?s1 = "\<lparr>arr = srt, rseq = drop ?k srt, rlen = NUM_REQUESTS - ?k\<rparr>"
  have 1: "copy_up ?k NUM_REQUESTS ?s0 = Some ?s1"
    using copy_up_slice[of NUM_REQUESTS ?s0 ?k] k assms requests_fit by simp
  have 2: "copy_up 0 ?k ?s1 =
      Some \<lparr>arr = srt, rseq = drop ?k srt @ take ?k srt, rlen = NUM_REQUESTS\<rparr>"
    using copy_up_slice[of ?k ?s1 0] k assms requests_fit by simp
  show ?thesis
    by (simp add: schedule_clook_def find_index_split_index[OF assms] 1 2)
qed

lemma clook_left_closed:
  assumes "length srt = NUM_REQUESTS"
  shows "schedule_clook srt start DIR_LEFT =
           finish \<lparr>arr = srt,
                   rseq = rev (take (split_index srt start) srt) @ rev (drop (split_index srt start) srt),
                   rlen = NUM_REQUESTS\<rparr> start"
proof -
  let ?k = "split_index srt start"
  have k: "?k \<le> NUM_REQUESTS" using split_index_le[of srt start] assms by simp
  let ?s0 = "\<lparr>arr = srt, rseq = [], rlen = 0\<rparr>"
  let ?s1 = "\<lparr>arr = srt, rseq = rev (take ?k srt), rlen = ?k\<rparr>"
  have 1: "copy_down (int ?k - 1) 0 ?s0 = Some ?s1"
    using copy_down_slice[of 0 ?k ?s0] k assms requests_fit by simp
  have 2: "copy_down (int NUM_REQUESTS - 1) (int ?k) ?s1 =
      Some \<lparr>arr = srt, rseq = rev (take ?k srt) @ rev (drop ?k srt), rlen = NUM_REQUESTS\<rparr>"
    using copy_down_slice[of ?k NUM_REQUESTS ?s1] k assms requests_fit by simp
  show ?thesis
    by (simp add: schedule_clook_def find_index_split_index[OF assms] 1 2)
qed

subsection \<open>The two sides of the split\<close>

lemma take_split_below:
  "x \<in> set (take (split_index srt start) srt) \<Longrightarrow> x < start"
  unfolding split_index_def
  using set_takeWhileD[of x "\<lambda>v. v < start" srt] by (simp flip: takeWhile_eq_take)

lemma drop_split_above:
  assumes "sorted srt" "x \<in> set (drop (split_index srt start) srt)"
  shows "start \<le> x"
proof -
  obtain j where j: "j < length (drop (split_index srt start) srt)"
      "x = drop (split_index srt start) srt ! j"
    using assms(2) by (auto simp: in_set_conv_nth)
  then have "x = srt ! (split_index srt start + j)" "split_index srt start + j < length srt"
    by auto
  then show ?thesis
    using split_above[OF assms(1), of start "split_index srt start + j"]
    by (simp add: split_index_def)
qed

lemma in_range_take: "\<forall>x\<in>set srt. in_range x \<Longrightarrow> x \<in> set (take k srt) \<Longrightarrow> in_range x"
  by (meson in_set_takeD)

lemma in_range_drop: "\<forall>x\<in>set srt. in_range x \<Longrightarrow> x \<in> set (drop k srt) \<Longrightarrow> in_range x"
  by (meson in_set_dropD)





section \<open>FCFS and SSTF as lists\<close>

subsection \<open>FCFS up to its last two statements\<close>

lemma fcfs_loop_copy:
  assumes "length (arr s) = NUM_REQUESTS" "length (rseq s) = i" "i \<le> NUM_REQUESTS"
  shows "fcfs_loop i s = Some (s\<lparr>rseq := rseq s @ drop i (arr s)\<rparr>)"
  using assms
proof (induction "NUM_REQUESTS - i" arbitrary: i s)
  case 0
  then show ?case by (subst fcfs_loop.simps) simp
next
  case (Suc k)
  then have lt: "i < NUM_REQUESTS" "i < length (arr s)" by simp_all
  let ?s' = "s\<lparr>rseq := rseq s @ [arr s ! i]\<rparr>"
  have st: "store (rseq s) i (arr s ! i) = Some (rseq s @ [arr s ! i])"
    using Suc.prems lt requests_fit by (simp add: store_def)
  have ih: "fcfs_loop (Suc i) ?s' = Some (?s'\<lparr>rseq := rseq ?s' @ drop (Suc i) (arr ?s')\<rparr>)"
    using Suc.prems Suc.hyps(2) lt by (intro Suc.hyps(1)) auto
  show ?case
    using lt by (subst fcfs_loop.simps) (simp add: rd_nat st ih Cons_nth_drop_Suc)
qed

lemma fcfs_closed:
  assumes "length req = NUM_REQUESTS"
  shows "schedule_fcfs req start = finish \<lparr>arr = req, rseq = req, rlen = NUM_REQUESTS\<rparr> start"
  using fcfs_loop_copy[of "\<lparr>arr = req, rseq = [], rlen = NUM_REQUESTS\<rparr>" 0] assms
  by (simp add: schedule_fcfs_def)

subsection \<open>SSTF: the inner scan\<close>

lemma c_dist_exact:
  assumes "\<bar>a - b\<bar> \<le> 2147483647"
  shows "c_abs (c_sub a b) = \<bar>a - b\<bar>"
proof -
  have "c_sub a b = a - b"
    unfolding c_sub_def using assms by (intro wrap32_id) linarith+
  moreover have "c_abs (a - b) = \<bar>a - b\<bar>"
    unfolding c_abs_def using assms by (intro wrap32_id) linarith+
  ultimately show ?thesis by simp
qed

lemma sstf_scan_step:
  assumes "i < n" "length req = n" "length visited = n" "\<bar>req ! i - head\<bar> < 1000000000"
  shows "sstf_scan n req visited head i bd bi =
           (if visited ! i = 0 \<and> \<bar>req ! i - head\<bar> < bd
            then sstf_scan n req visited head (Suc i) \<bar>req ! i - head\<bar> (int i)
            else sstf_scan n req visited head (Suc i) bd bi)"
proof -
  have "c_abs (c_sub (req ! i) head) = \<bar>req ! i - head\<bar>"
    using assms(4) by (intro c_dist_exact) simp
  then show ?thesis
    using assms(1-3) by (subst sstf_scan.simps) (simp add: rd_nat Let_def)
qed

lemma sstf_scan_spec:
  assumes "length req = n" "length visited = n" "\<forall>j<n. \<bar>req ! j - head\<bar> < 1000000000"
  shows "\<exists>bd' bi'. sstf_scan n req visited head i bd bi = Some (bd', bi') \<and>
           ((bd' = bd \<and> bi' = bi \<and>
               (\<forall>j. i \<le> j \<and> j < n \<and> visited ! j = 0 \<longrightarrow> bd \<le> \<bar>req ! j - head\<bar>)) \<or>
            (\<exists>k. bi' = int k \<and> i \<le> k \<and> k < n \<and> visited ! k = 0 \<and>
                 bd' = \<bar>req ! k - head\<bar> \<and> \<bar>req ! k - head\<bar> < bd \<and>
                 (\<forall>j. i \<le> j \<and> j < n \<and> visited ! j = 0 \<longrightarrow>
                     \<bar>req ! k - head\<bar> < \<bar>req ! j - head\<bar> \<or>
                     (\<bar>req ! k - head\<bar> = \<bar>req ! j - head\<bar> \<and> k \<le> j))))"
proof (induction "n - i" arbitrary: i bd bi)
  case 0
  then have "sstf_scan n req visited head i bd bi = Some (bd, bi)"
    by (subst sstf_scan.simps) simp
  then show ?case using 0 by simp
next
  case (Suc m)
  then have lt: "i < n" by simp
  have m: "m = n - Suc i" using Suc.hyps(2) by simp
  let ?D = "\<lambda>j. \<bar>req ! j - head\<bar>"
  have step: "sstf_scan n req visited head i bd bi =
           (if visited ! i = 0 \<and> ?D i < bd
            then sstf_scan n req visited head (Suc i) (?D i) (int i)
            else sstf_scan n req visited head (Suc i) bd bi)"
    using lt assms by (intro sstf_scan_step) auto
  show ?case
  proof (cases "visited ! i = 0 \<and> ?D i < bd")
    case True
    from Suc.hyps(1)[OF m, of "?D i" "int i"] obtain bd' bi' where
      r: "sstf_scan n req visited head (Suc i) (?D i) (int i) = Some (bd', bi')"
      and alt: "(bd' = ?D i \<and> bi' = int i \<and>
               (\<forall>j. Suc i \<le> j \<and> j < n \<and> visited ! j = 0 \<longrightarrow> ?D i \<le> ?D j)) \<or>
            (\<exists>k. bi' = int k \<and> Suc i \<le> k \<and> k < n \<and> visited ! k = 0 \<and>
                 bd' = ?D k \<and> ?D k < ?D i \<and>
                 (\<forall>j. Suc i \<le> j \<and> j < n \<and> visited ! j = 0 \<longrightarrow>
                     ?D k < ?D j \<or> (?D k = ?D j \<and> k \<le> j)))"
      by blast
    have "\<exists>k. bi' = int k \<and> i \<le> k \<and> k < n \<and> visited ! k = 0 \<and>
                 bd' = ?D k \<and> ?D k < bd \<and>
                 (\<forall>j. i \<le> j \<and> j < n \<and> visited ! j = 0 \<longrightarrow>
                     ?D k < ?D j \<or> (?D k = ?D j \<and> k \<le> j))"
      using alt
    proof
      assume a: "bd' = ?D i \<and> bi' = int i \<and>
               (\<forall>j. Suc i \<le> j \<and> j < n \<and> visited ! j = 0 \<longrightarrow> ?D i \<le> ?D j)"
      have "\<forall>j. i \<le> j \<and> j < n \<and> visited ! j = 0 \<longrightarrow>
                     ?D i < ?D j \<or> (?D i = ?D j \<and> i \<le> j)"
        using a by (metis Suc_leI le_neq_implies_less order_le_less)
      then show ?thesis using a True lt by blast
    next
      assume "\<exists>k. bi' = int k \<and> Suc i \<le> k \<and> k < n \<and> visited ! k = 0 \<and>
                 bd' = ?D k \<and> ?D k < ?D i \<and>
                 (\<forall>j. Suc i \<le> j \<and> j < n \<and> visited ! j = 0 \<longrightarrow>
                     ?D k < ?D j \<or> (?D k = ?D j \<and> k \<le> j))"
      then obtain k where k: "bi' = int k" "Suc i \<le> k" "k < n" "visited ! k = 0"
        "bd' = ?D k" "?D k < ?D i"
        "\<forall>j. Suc i \<le> j \<and> j < n \<and> visited ! j = 0 \<longrightarrow> ?D k < ?D j \<or> (?D k = ?D j \<and> k \<le> j)"
        by blast
      have "\<forall>j. i \<le> j \<and> j < n \<and> visited ! j = 0 \<longrightarrow> ?D k < ?D j \<or> (?D k = ?D j \<and> k \<le> j)"
        using k(6,7) by (metis Suc_leI le_neq_implies_less)
      moreover have "?D k < bd" using k(6) True by linarith
      moreover have "i \<le> k" using k(2) by simp
      ultimately show ?thesis using k by blast
    qed
    then show ?thesis using step True r by auto
  next
    case False
    from Suc.hyps(1)[OF m, of bd bi] obtain bd' bi' where
      r: "sstf_scan n req visited head (Suc i) bd bi = Some (bd', bi')"
      and alt: "(bd' = bd \<and> bi' = bi \<and>
               (\<forall>j. Suc i \<le> j \<and> j < n \<and> visited ! j = 0 \<longrightarrow> bd \<le> ?D j)) \<or>
            (\<exists>k. bi' = int k \<and> Suc i \<le> k \<and> k < n \<and> visited ! k = 0 \<and>
                 bd' = ?D k \<and> ?D k < bd \<and>
                 (\<forall>j. Suc i \<le> j \<and> j < n \<and> visited ! j = 0 \<longrightarrow>
                     ?D k < ?D j \<or> (?D k = ?D j \<and> k \<le> j)))"
      by blast
    have here: "visited ! i = 0 \<longrightarrow> bd \<le> ?D i" using False by auto
    have "(bd' = bd \<and> bi' = bi \<and>
               (\<forall>j. i \<le> j \<and> j < n \<and> visited ! j = 0 \<longrightarrow> bd \<le> ?D j)) \<or>
            (\<exists>k. bi' = int k \<and> i \<le> k \<and> k < n \<and> visited ! k = 0 \<and>
                 bd' = ?D k \<and> ?D k < bd \<and>
                 (\<forall>j. i \<le> j \<and> j < n \<and> visited ! j = 0 \<longrightarrow>
                     ?D k < ?D j \<or> (?D k = ?D j \<and> k \<le> j)))"
      using alt
    proof
      assume a: "bd' = bd \<and> bi' = bi \<and>
               (\<forall>j. Suc i \<le> j \<and> j < n \<and> visited ! j = 0 \<longrightarrow> bd \<le> ?D j)"
      have "\<forall>j. i \<le> j \<and> j < n \<and> visited ! j = 0 \<longrightarrow> bd \<le> ?D j"
        using a here by (metis Suc_leI le_neq_implies_less)
      then show ?thesis using a by blast
    next
      assume "\<exists>k. bi' = int k \<and> Suc i \<le> k \<and> k < n \<and> visited ! k = 0 \<and>
                 bd' = ?D k \<and> ?D k < bd \<and>
                 (\<forall>j. Suc i \<le> j \<and> j < n \<and> visited ! j = 0 \<longrightarrow>
                     ?D k < ?D j \<or> (?D k = ?D j \<and> k \<le> j))"
      then obtain k where k: "bi' = int k" "Suc i \<le> k" "k < n" "visited ! k = 0"
        "bd' = ?D k" "?D k < bd"
        "\<forall>j. Suc i \<le> j \<and> j < n \<and> visited ! j = 0 \<longrightarrow> ?D k < ?D j \<or> (?D k = ?D j \<and> k \<le> j)"
        by blast
      have "visited ! i = 0 \<longrightarrow> ?D k < ?D i" using here k(6) by linarith
      then have "\<forall>j. i \<le> j \<and> j < n \<and> visited ! j = 0 \<longrightarrow> ?D k < ?D j \<or> (?D k = ?D j \<and> k \<le> j)"
        using k(7) by (metis Suc_leI le_neq_implies_less)
      moreover have "i \<le> k" using k(2) by simp
      ultimately show ?thesis using k by blast
    qed
    then show ?thesis using step False r by auto
  qed
qed

subsection \<open>SSTF: the outer loop\<close>

lemma in_range_dist:
  "in_range a \<Longrightarrow> in_range b \<Longrightarrow> \<bar>a - b\<bar> < 1000000000"
  by (auto simp: in_range_def NUM_CYLINDERS_def)

lemma unvisited_exists:
  assumes "card {j. j < n \<and> visited ! j \<noteq> (0::int)} < n"
  shows "\<exists>j<n. visited ! j = 0"
proof (rule ccontr)
  assume "\<not> (\<exists>j<n. visited ! j = 0)"
  then have "{j. j < n \<and> visited ! j \<noteq> 0} = {..<n}" by auto
  then show False using assms by simp
qed

lemma visited_mark:
  assumes "k < n" "length visited = n" "visited ! k = (0::int)"
  shows "{j. j < n \<and> visited[k := 1] ! j \<noteq> 0} = insert k {j. j < n \<and> visited ! j \<noteq> 0}"
  using assms by (auto simp: nth_list_update)

lemma sstf_loop_spec:
  assumes "length (arr s) = n" "length visited = n" "\<forall>x\<in>set (arr s). in_range x"
    "in_range head" "length (rseq s) = cnt"
    "card {j. j < n \<and> visited ! j \<noteq> 0} = cnt" "n \<le> SEQ_CAPACITY"
  shows "\<exists>ks. sstf_loop n s visited head cnt = Some (s\<lparr>rseq := rseq s @ map ((!) (arr s)) ks\<rparr>) \<and>
           length ks = n - cnt \<and>
           greedy_order (arr s) {j. j < n \<and> visited ! j \<noteq> 0} head ks"
  using assms
proof (induction "n - cnt" arbitrary: s visited head cnt)
  case 0
  then have "sstf_loop n s visited head cnt = Some s"
    by (subst sstf_loop.simps) simp
  then show ?case using 0 by (intro exI[of _ "[]"]) simp
next
  case (Suc m)
  let ?req = "arr s"
  let ?V = "{j. j < n \<and> visited ! j \<noteq> 0}"
  let ?D = "\<lambda>j. \<bar>?req ! j - head\<bar>"
  have lt: "cnt < n" using Suc.hyps(2) by simp
  have dist: "\<forall>j<n. ?D j < 1000000000"
    using Suc.prems(1,3,4) by (auto intro!: in_range_dist)
  obtain j0 where j0: "j0 < n" "visited ! j0 = 0"
    using unvisited_exists[of n visited] Suc.prems(6) lt by auto
  obtain bd' bi' where
    r: "sstf_scan n ?req visited head 0 1000000000 (- 1) = Some (bd', bi')"
    and alt: "(bd' = 1000000000 \<and> bi' = - 1 \<and>
               (\<forall>j. 0 \<le> j \<and> j < n \<and> visited ! j = 0 \<longrightarrow> 1000000000 \<le> ?D j)) \<or>
            (\<exists>k. bi' = int k \<and> 0 \<le> k \<and> k < n \<and> visited ! k = 0 \<and>
                 bd' = ?D k \<and> ?D k < 1000000000 \<and>
                 (\<forall>j. 0 \<le> j \<and> j < n \<and> visited ! j = 0 \<longrightarrow>
                     ?D k < ?D j \<or> (?D k = ?D j \<and> k \<le> j)))"
    using sstf_scan_spec[OF Suc.prems(1,2) dist, of 0 1000000000 "- 1"]
    by (elim exE conjE) (rule that)
  have "\<not> (\<forall>j. 0 \<le> j \<and> j < n \<and> visited ! j = 0 \<longrightarrow> 1000000000 \<le> ?D j)"
    using j0 dist by fastforce
  with alt obtain k where k: "bi' = int k" "k < n" "visited ! k = 0"
    and least: "\<forall>j. j < n \<and> visited ! j = 0 \<longrightarrow> ?D k < ?D j \<or> (?D k = ?D j \<and> k \<le> j)"
    by auto
  let ?q = "?req ! k"
  let ?s' = "s\<lparr>rseq := rseq s @ [?q]\<rparr>"
  let ?visited' = "visited[k := 1]"
  have w: "wr visited (int k) 1 = Some ?visited'"
    using k(2) Suc.prems(2) by (simp add: wr_def)
  have q: "rd ?req (int k) = Some ?q"
    using k(2) Suc.prems(1) by (simp add: rd_nat)
  have st: "store (rseq s) cnt ?q = Some (rseq s @ [?q])"
    using Suc.prems(5,7) lt by (simp add: store_def)
  have step: "sstf_loop n s visited head cnt = sstf_loop n ?s' ?visited' ?q (Suc cnt)"
    using lt by (subst sstf_loop.simps) (simp add: r k(1) w q st)
  have V': "{j. j < n \<and> ?visited' ! j \<noteq> 0} = insert k ?V"
    using k Suc.prems(2) by (intro visited_mark) auto
  have kV: "k \<notin> ?V" using k by simp
  have cV: "card (insert k ?V) = Suc cnt"
    using kV Suc.prems(6) by simp
  have qr: "in_range ?q" using Suc.prems(1,3) k(2) by simp
  have "\<exists>ks. sstf_loop n ?s' ?visited' ?q (Suc cnt) =
             Some (?s'\<lparr>rseq := rseq ?s' @ map ((!) (arr ?s')) ks\<rparr>) \<and>
           length ks = n - Suc cnt \<and>
           greedy_order (arr ?s') {j. j < n \<and> ?visited' ! j \<noteq> 0} ?q ks"
  proof (rule Suc.hyps(1))
    show "m = n - Suc cnt" using Suc.hyps(2) by simp
    show "length (arr ?s') = n" using Suc.prems(1) by simp
    show "length ?visited' = n" using Suc.prems(2) by simp
    show "\<forall>x\<in>set (arr ?s'). in_range x" using Suc.prems(3) by simp
    show "in_range ?q" by (rule qr)
    show "length (rseq ?s') = Suc cnt" using Suc.prems(5) by simp
    show "card {j. j < n \<and> ?visited' ! j \<noteq> 0} = Suc cnt" using V' cV by simp
    show "n \<le> SEQ_CAPACITY" by (rule Suc.prems(7))
  qed
  then obtain ks where ks:
    "sstf_loop n ?s' ?visited' ?q (Suc cnt) = Some (?s'\<lparr>rseq := rseq ?s' @ map ((!) (arr ?s')) ks\<rparr>)"
    "length ks = n - Suc cnt"
    "greedy_order (arr ?s') {j. j < n \<and> ?visited' ! j \<noteq> 0} ?q ks"
    by (elim exE conjE) (rule that)
  have g: "greedy_order ?req ?V head (k # ks)"
    using ks(3) k kV least Suc.prems(1) V' by auto
  have "sstf_loop n s visited head cnt = Some (s\<lparr>rseq := rseq s @ map ((!) ?req) (k # ks)\<rparr>)"
    using step ks(1) by simp
  moreover have "length (k # ks) = n - cnt" using ks(2) lt by simp
  ultimately show ?case using g by blast
qed

subsection \<open>SSTF up to its last two statements\<close>

lemma greedy_order_distinct:
  "greedy_order req V head ks \<Longrightarrow>
     distinct ks \<and> set ks \<inter> V = {} \<and> set ks \<subseteq> {..<length req}"
proof (induction ks arbitrary: V head)
  case Nil
  then show ?case by simp
next
  case (Cons k ks)
  then have "distinct ks \<and> set ks \<inter> insert k V = {} \<and> set ks \<subseteq> {..<length req}"
    by (intro Cons.IH[of "insert k V" "req ! k"]) simp
  then show ?case using Cons.prems by auto
qed

lemma greedy_order_mset:
  assumes "greedy_order req {} head ks" "length ks = length req"
  shows "mset (map ((!) req) ks) = mset req"
proof -
  have d: "distinct ks" and sub: "set ks \<subseteq> {..<length req}"
    using greedy_order_distinct[OF assms(1)] by simp_all
  have "card (set ks) = length req" using d assms(2) by (simp add: distinct_card)
  then have "set ks = {..<length req}"
    using sub by (intro card_subset_eq) simp_all
  then have "set ks = set [0..<length req]" by (simp add: lessThan_atLeast0)
  then have "mset ks = mset [0..<length req]"
    using d distinct_upt set_eq_iff_mset_eq_distinct by blast
  then have "mset (map ((!) req) ks) = mset (map ((!) req) [0..<length req])"
    by (metis mset_map)
  then show ?thesis by (simp add: map_nth)
qed

lemma sstf_body_spec:
  assumes "length req = n" "\<forall>c\<in>set req. in_range c" "in_range start" "n \<le> SEQ_CAPACITY"
  shows "\<exists>ks. sstf_body n req start =
                finish \<lparr>arr = req, rseq = map ((!) req) ks, rlen = n\<rparr> start \<and>
              length ks = n \<and> greedy_order req {} start ks"
proof -
  let ?s0 = "\<lparr>arr = req, rseq = [], rlen = 0\<rparr>"
  have e: "{j. j < n \<and> replicate n (0::int) ! j \<noteq> 0} = {}" by auto
  have "\<exists>ks. sstf_loop n ?s0 (replicate n 0) start 0 =
            Some (?s0\<lparr>rseq := rseq ?s0 @ map ((!) (arr ?s0)) ks\<rparr>) \<and>
          length ks = n - 0 \<and>
          greedy_order (arr ?s0) {j. j < n \<and> replicate n (0::int) ! j \<noteq> 0} start ks"
  proof (rule sstf_loop_spec)
    show "card {j. j < n \<and> replicate n (0::int) ! j \<noteq> 0} = 0" by (simp only: e card.empty)
  qed (use assms in simp_all)
  then obtain ks where
    "sstf_loop n ?s0 (replicate n 0) start 0 = Some \<lparr>arr = req, rseq = map ((!) req) ks, rlen = 0\<rparr>"
    "length ks = n" "greedy_order req {} start ks"
    unfolding e by auto
  then show ?thesis by (auto simp: sstf_body_def)
qed

section \<open>SSTF: the greedy order and the array bounds\<close>

lemma sstf_finish:
  assumes "length req = NUM_REQUESTS" "\<forall>c\<in>set req. in_range c" "in_range start"
  shows "\<exists>ks. schedule_sstf req start =
              Some (\<lparr>seq = map ((!) req) ks, len = NUM_REQUESTS,
                     movement = movement_sum start (map ((!) req) ks)\<rparr>, req) \<and>
              length ks = NUM_REQUESTS \<and> greedy_order req {} start ks"
proof -
  have cap: "NUM_REQUESTS \<le> SEQ_CAPACITY" using requests_fit by simp
  obtain ks where ks:
    "sstf_body NUM_REQUESTS req start =
       finish \<lparr>arr = req, rseq = map ((!) req) ks, rlen = NUM_REQUESTS\<rparr> start"
    "length ks = NUM_REQUESTS" "greedy_order req {} start ks"
    using sstf_body_spec[OF assms cap] by (elim exE conjE) (rule that)
  have "set ks \<subseteq> {..<length req}"
    using greedy_order_distinct[OF ks(3)] by simp
  then have "\<forall>c\<in>set (map ((!) req) ks). in_range c"
    using assms(2) by auto
  then have "movement_sum start (map ((!) req) ks) \<le> 2147483647"
    using assms(3) ks(2) cap by (intro capacity_no_overflow) simp_all
  then have "finish \<lparr>arr = req, rseq = map ((!) req) ks, rlen = NUM_REQUESTS\<rparr> start =
      Some (\<lparr>seq = map ((!) req) ks, len = NUM_REQUESTS,
             movement = movement_sum start (map ((!) req) ks)\<rparr>, req)"
    using finish_exact[of "\<lparr>arr = req, rseq = map ((!) req) ks, rlen = NUM_REQUESTS\<rparr>" start] ks(2)
    by simp
  then show ?thesis using ks by (auto simp: schedule_sstf_def)
qed

text \<open>
  C2. For every valid input (\<open>NUM_REQUESTS\<close> request cylinders and a start position, all
  in \<open>[0, NUM_CYLINDERS - 1]\<close>) \<^verbatim>\<open>schedule_sstf\<close> returns the requests in the order of a list
  \<open>ks\<close> of \<open>NUM_REQUESTS\<close> indices that follows the greedy discipline from the start
  position with nothing serviced: each index selected is not yet serviced and its distance
  from the current head is minimal among the unserviced requests, of equidistant
  unserviced requests the one with the smaller index is selected, and the head is moved to
  the selected cylinder.
\<close>

theorem sstf_greedy:
  assumes "length req = NUM_REQUESTS" "\<forall>c\<in>set req. in_range c" "in_range start"
  shows "\<exists>ks r. schedule_sstf req start = Some (r, req) \<and>
           seq r = map ((!) req) ks \<and> len r = NUM_REQUESTS \<and>
           length ks = NUM_REQUESTS \<and> greedy_order req {} start ks"
  using sstf_finish[OF assms] by fastforce

text \<open>
  The theorem at twenty requests with the head at 50: indices 0 and 1 hold the cylinders
  60 and 40, both at distance 10 and nearer than every other request, and 60, the earlier
  one, is serviced first.
\<close>

theorem sstf_greedy_witness:
  "length [60, 40, 98, 183, 5, 122, 14, 124, 10, 250, 199, 150, 0, 299, 151, 88, 201, 133, 77, 160 :: int]
     = NUM_REQUESTS \<and> in_range 50 \<and>
   (\<exists>ks. greedy_order
       [60, 40, 98, 183, 5, 122, 14, 124, 10, 250, 199, 150, 0, 299, 151, 88, 201, 133, 77, 160] {} 50 ks \<and>
     map ((!) [60, 40, 98, 183, 5, 122, 14, 124, 10, 250, 199, 150, 0, 299, 151, 88, 201, 133, 77, 160]) ks
       = [60, 77, 88, 98, 122, 124, 133, 150, 151, 160, 183, 199, 201, 250, 299, 40, 14, 10, 5, 0 :: int]) \<and>
   map_option (seq \<circ> fst)
     (schedule_sstf [60, 40, 98, 183, 5, 122, 14, 124, 10, 250, 199, 150, 0, 299, 151, 88, 201, 133, 77, 160] 50)
     = Some [60, 77, 88, 98, 122, 124, 133, 150, 151, 160, 183, 199, 201, 250, 299, 40, 14, 10, 5, 0]"
proof -
  let ?L = "[60, 40, 98, 183, 5, 122, 14, 124, 10, 250, 199, 150, 0, 299, 151, 88, 201, 133, 77, 160 :: int]"
  have n: "length ?L = NUM_REQUESTS" by (simp add: NUM_REQUESTS_def)
  have c: "\<forall>c\<in>set ?L. in_range c" by (simp add: in_range_def NUM_CYLINDERS_def)
  have h: "in_range 50" by (simp add: in_range_def NUM_CYLINDERS_def)
  have e: "map_option (seq \<circ> fst) (schedule_sstf ?L 50)
     = Some [60, 77, 88, 98, 122, 124, 133, 150, 151, 160, 183, 199, 201, 250, 299, 40, 14, 10, 5, 0]"
    by code_simp
  obtain ks r where k: "schedule_sstf ?L 50 = Some (r, ?L)" "seq r = map ((!) ?L) ks"
    "greedy_order ?L {} 50 ks"
    using sstf_greedy[OF n c h] by blast
  have m: "map ((!) ?L) ks
     = [60, 77, 88, 98, 122, 124, 133, 150, 151, 160, 183, 199, 201, 250, 299, 40, 14, 10, 5, 0]"
    using e unfolding k(1) by (simp add: k(2))
  have "\<exists>ks. greedy_order ?L {} 50 ks \<and> map ((!) ?L) ks
     = [60, 77, 88, 98, 122, 124, 133, 150, 151, 160, 183, 199, 201, 250, 299, 40, 14, 10, 5, 0]"
    by (rule exI[of _ ks], rule conjI, rule k(3), rule m)
  then show ?thesis using n h e by (intro conjI)
qed

text \<open>
  C10. Under the precondition that the \<open>NUM_REQUESTS\<close> request cylinders and the start
  position lie in \<open>[0, NUM_CYLINDERS - 1]\<close>, \<^verbatim>\<open>schedule_sstf\<close> runs to its end with every array
  access inside its array (an access outside is \<open>None\<close> in the model) and returns
  \<open>NUM_REQUESTS\<close> entries. In every state an outer iteration can start in, that is with
  \<open>cnt < NUM_REQUESTS\<close> entries of \<^verbatim>\<open>visited\<close> set and the head on a valid cylinder, the inner
  scan returns a distance below the sentinel \<open>10^9\<close> and an index \<^verbatim>\<open>bestIdx\<close> in
  \<open>[0, NUM_REQUESTS)\<close> of an unvisited request, so \<^verbatim>\<open>bestIdx\<close> is not \<open>-1\<close>, the accesses
  \<^verbatim>\<open>visited[bestIdx]\<close>, \<^verbatim>\<open>req[bestIdx]\<close> and \<^verbatim>\<open>r.seq[count]\<close> are inside their arrays, and
  the distance the scan computes for any candidate is below the sentinel.
\<close>

theorem sstf_in_bounds:
  assumes "length req = NUM_REQUESTS" "\<forall>c\<in>set req. in_range c" "in_range start"
  shows "(\<exists>r. schedule_sstf req start = Some (r, req) \<and> len r = NUM_REQUESTS \<and>
              length (seq r) = NUM_REQUESTS) \<and>
         (\<forall>(visited::int list) head cnt sq.
            length visited = NUM_REQUESTS \<and> in_range head \<and>
            card {j. j < NUM_REQUESTS \<and> visited ! j \<noteq> 0} = cnt \<and> cnt < NUM_REQUESTS \<and>
            length sq = cnt \<longrightarrow>
            (\<exists>bestDist bestIdx.
               sstf_scan NUM_REQUESTS req visited head 0 1000000000 (- 1) = Some (bestDist, bestIdx) \<and>
               bestDist < 1000000000 \<and> 0 \<le> bestIdx \<and> bestIdx < int NUM_REQUESTS \<and>
               visited ! nat bestIdx = 0 \<and>
               wr visited bestIdx 1 \<noteq> None \<and> rd req bestIdx \<noteq> None \<and>
               store sq cnt (req ! nat bestIdx) \<noteq> None) \<and>
            (\<forall>j<NUM_REQUESTS. c_abs (c_sub (req ! j) head) < 1000000000))"
proof (intro conjI allI impI)
  show "\<exists>r. schedule_sstf req start = Some (r, req) \<and> len r = NUM_REQUESTS \<and>
              length (seq r) = NUM_REQUESTS"
    using sstf_finish[OF assms] by fastforce
next
  fix visited :: "int list" and head :: int and cnt :: nat and sq :: "int list"
  assume a: "length visited = NUM_REQUESTS \<and> in_range head \<and>
            card {j. j < NUM_REQUESTS \<and> visited ! j \<noteq> 0} = cnt \<and> cnt < NUM_REQUESTS \<and>
            length sq = cnt"
  let ?n = NUM_REQUESTS
  let ?D = "\<lambda>j. \<bar>req ! j - head\<bar>"
  have dist: "\<forall>j<?n. ?D j < 1000000000"
    using assms(1,2) a by (auto intro!: in_range_dist)
  obtain j0 where j0: "j0 < ?n" "visited ! j0 = 0"
    using unvisited_exists[of ?n visited] a by auto
  have lv: "length visited = ?n" using a by simp
  obtain bd' bi' where
    r: "sstf_scan ?n req visited head 0 1000000000 (- 1) = Some (bd', bi')"
    and alt: "(bd' = 1000000000 \<and> bi' = - 1 \<and>
               (\<forall>j. 0 \<le> j \<and> j < ?n \<and> visited ! j = 0 \<longrightarrow> 1000000000 \<le> ?D j)) \<or>
            (\<exists>k. bi' = int k \<and> 0 \<le> k \<and> k < ?n \<and> visited ! k = 0 \<and>
                 bd' = ?D k \<and> ?D k < 1000000000 \<and>
                 (\<forall>j. 0 \<le> j \<and> j < ?n \<and> visited ! j = 0 \<longrightarrow>
                     ?D k < ?D j \<or> (?D k = ?D j \<and> k \<le> j)))"
    using sstf_scan_spec[OF assms(1) lv dist, of 0 1000000000 "- 1"]
    by (elim exE conjE) (rule that)
  have "\<not> (\<forall>j. 0 \<le> j \<and> j < ?n \<and> visited ! j = 0 \<longrightarrow> 1000000000 \<le> ?D j)"
    using j0 dist by fastforce
  with alt obtain k where k: "bi' = int k" "k < ?n" "visited ! k = 0" "bd' < 1000000000"
    by auto
  have "wr visited (int k) 1 \<noteq> None" using k(2) lv by (simp add: wr_def)
  moreover have "rd req (int k) \<noteq> None" using k(2) assms(1) by (simp add: rd_nat)
  moreover have "store sq cnt (req ! k) \<noteq> None"
    using a requests_fit by (simp add: store_def)
  ultimately show "\<exists>bestDist bestIdx.
               sstf_scan NUM_REQUESTS req visited head 0 1000000000 (- 1) = Some (bestDist, bestIdx) \<and>
               bestDist < 1000000000 \<and> 0 \<le> bestIdx \<and> bestIdx < int NUM_REQUESTS \<and>
               visited ! nat bestIdx = 0 \<and>
               wr visited bestIdx 1 \<noteq> None \<and> rd req bestIdx \<noteq> None \<and>
               store sq cnt (req ! nat bestIdx) \<noteq> None"
    using r k by simp
  fix j
  assume "j < NUM_REQUESTS"
  then have "\<bar>req ! j - head\<bar> < 1000000000" using dist by simp
  then show "c_abs (c_sub (req ! j) head) < 1000000000"
    using c_dist_exact[of "req ! j" head] by simp
qed

text \<open>
  The theorem at twenty valid requests with the head at 53: the call returns, and the
  scan of the first iteration returns the distance 8 and the index 11 (cylinder 45).
\<close>

theorem sstf_in_bounds_witness:
  "length [98, 183, 37, 122, 14, 124, 65, 67, 10, 250, 199, 45, 0, 299, 150, 88, 201, 33, 77, 160 :: int]
     = NUM_REQUESTS \<and> in_range 53 \<and>
   schedule_sstf [98, 183, 37, 122, 14, 124, 65, 67, 10, 250, 199, 45, 0, 299, 150, 88, 201, 33, 77, 160] 53
     \<noteq> None \<and>
   sstf_scan NUM_REQUESTS
     [98, 183, 37, 122, 14, 124, 65, 67, 10, 250, 199, 45, 0, 299, 150, 88, 201, 33, 77, 160]
     (replicate NUM_REQUESTS 0) 53 0 1000000000 (- 1) = Some (8, 11)"
proof -
  let ?L = "[98, 183, 37, 122, 14, 124, 65, 67, 10, 250, 199, 45, 0, 299, 150, 88, 201, 33, 77, 160 :: int]"
  have n: "length ?L = NUM_REQUESTS" by (simp add: NUM_REQUESTS_def)
  have c: "\<forall>c\<in>set ?L. in_range c" by (simp add: in_range_def NUM_CYLINDERS_def)
  have h: "in_range 53" by (simp add: in_range_def NUM_CYLINDERS_def)
  have e: "sstf_scan NUM_REQUESTS ?L (replicate NUM_REQUESTS 0) 53 0 1000000000 (- 1) = Some (8, 11)"
    by code_simp
  have "\<exists>r. schedule_sstf ?L 53 = Some (r, ?L) \<and> len r = NUM_REQUESTS \<and>
              length (seq r) = NUM_REQUESTS"
    using sstf_in_bounds[OF n c h] by (rule conjunct1)
  then show ?thesis using n h e by auto
qed

section \<open>The SSTF fixture of the specification\<close>

text \<open>
  C8, as amended. With the request count set to 8, the body of \<^verbatim>\<open>schedule_sstf\<close> on the
  requests 98, 183, 37, 122, 14, 124, 65, 67 with start position 53 produces the service
  order 65, 67, 37, 14, 98, 122, 124, 183 with total movement 236 (SSTF takes no
  direction).
\<close>

theorem sstf_fixture:
  "sstf_body 8 [98, 183, 37, 122, 14, 124, 65, 67] 53 =
     Some (\<lparr>seq = [65, 67, 37, 14, 98, 122, 124, 183], len = 8, movement = 236\<rparr>,
           [98, 183, 37, 122, 14, 124, 65, 67])"
  by code_simp

text \<open>
  The source fixes the request count: \<^verbatim>\<open>NUM_REQUESTS\<close> is 20, and \<^verbatim>\<open>schedule_sstf\<close> on the
  eight requests reads \<^verbatim>\<open>req[8]\<close>, outside the array, in its first scan.
\<close>

theorem sstf_fixture_needs_eight:
  "schedule_sstf [98, 183, 37, 122, 14, 124, 65, 67] 53 = None \<and>
   schedule_sstf [98, 183, 37, 122, 14, 124, 65, 67] 53 \<noteq>
     Some (\<lparr>seq = [65, 67, 37, 14, 98, 122, 124, 183], len = 8, movement = 236\<rparr>,
           [98, 183, 37, 122, 14, 124, 65, 67]) \<and>
   rd [98, 183, 37, 122, 14, 124, 65, 67] 8 = None"
  by code_simp

section \<open>Every request exactly once\<close>

lemma mset_take_drop: "mset (take k xs) + mset (drop k xs) = mset xs"
  by (metis append_take_drop_id mset_append)

lemma finish_seq:
  assumes "rlen s = length (rseq s)"
  shows "\<exists>r. finish s start = Some (r, arr s) \<and> seq r = rseq s \<and> len r = rlen s"
  using finish_total[OF assms, of start] assms by auto

text \<open>
  C1. For every valid input (\<open>NUM_REQUESTS\<close> request cylinders and a head position in
  \<open>[0, NUM_CYLINDERS - 1]\<close>, the sorted array a rearrangement of the request array, either
  direction) the sequence each of the six scheduling functions returns, without the
  boundary entries that \<^verbatim>\<open>schedule_scan\<close> (one entry, the boundary of the direction) and
  \<^verbatim>\<open>schedule_cscan\<close> (two entries, that boundary and then the opposite one) insert, holds
  every request exactly once: it has the same multiset of cylinders as the request array.
  The sequence returned is the whole of \<open>seq\<close>: \<^verbatim>\<open>r.len\<close> is the number of cells written,
  \<open>NUM_REQUESTS\<close> plus the number of boundary entries.
\<close>

theorem schedules_permute:
  assumes "length req = NUM_REQUESTS" "\<forall>c\<in>set req. in_range c" "in_range start"
    "mset srt = mset req"
  shows "(\<exists>r a. schedule_fcfs req start = Some (r, a) \<and> mset (seq r) = mset req \<and>
             len r = length (seq r) \<and> len r = NUM_REQUESTS) \<and>
         (\<exists>r a. schedule_sstf req start = Some (r, a) \<and> mset (seq r) = mset req \<and>
             len r = length (seq r) \<and> len r = NUM_REQUESTS) \<and>
         (\<exists>r a xs ys. schedule_scan srt start dir = Some (r, a) \<and>
             seq r = xs @ [boundary dir] @ ys \<and> mset (xs @ ys) = mset req \<and>
             len r = length (seq r) \<and> len r = NUM_REQUESTS + 1) \<and>
         (\<exists>r a xs ys. schedule_cscan srt start dir = Some (r, a) \<and>
             seq r = xs @ (if dir = DIR_LEFT then [0, NUM_CYLINDERS - 1] else [NUM_CYLINDERS - 1, 0]) @ ys \<and>
             mset (xs @ ys) = mset req \<and>
             len r = length (seq r) \<and> len r = NUM_REQUESTS + 2) \<and>
         (\<exists>r a. schedule_look srt start dir = Some (r, a) \<and> mset (seq r) = mset req \<and>
             len r = length (seq r) \<and> len r = NUM_REQUESTS) \<and>
         (\<exists>r a. schedule_clook srt start dir = Some (r, a) \<and> mset (seq r) = mset req \<and>
             len r = length (seq r) \<and> len r = NUM_REQUESTS)"
proof -
  let ?k = "split_index srt start"
  let ?A = "take ?k srt" and ?B = "drop ?k srt"
  have n: "length srt = NUM_REQUESTS"
    using assms(1,4) by (metis mset_eq_length)
  have k: "?k \<le> length srt" by (rule split_index_le)
  have perm: "mset ?A + mset ?B = mset req" "mset ?B + mset ?A = mset req"
    using mset_take_drop[of ?k srt] assms(4) by (simp_all add: add.commute)
  have fcfs: "\<exists>r a. schedule_fcfs req start = Some (r, a) \<and> mset (seq r) = mset req \<and>
             len r = length (seq r) \<and> len r = NUM_REQUESTS"
    using finish_seq[of "\<lparr>arr = req, rseq = req, rlen = NUM_REQUESTS\<rparr>" start] assms(1)
    by (auto simp: fcfs_closed)
  obtain ks where ks: "schedule_sstf req start =
      Some (\<lparr>seq = map ((!) req) ks, len = NUM_REQUESTS,
             movement = movement_sum start (map ((!) req) ks)\<rparr>, req)"
      "length ks = NUM_REQUESTS" "greedy_order req {} start ks"
    using sstf_finish[OF assms(1-3)] by (elim exE conjE) (rule that)
  have "mset (map ((!) req) ks) = mset req"
    using ks(2,3) assms(1) by (intro greedy_order_mset[of req start]) simp_all
  then have sstf: "\<exists>r a. schedule_sstf req start = Some (r, a) \<and> mset (seq r) = mset req \<and>
             len r = length (seq r) \<and> len r = NUM_REQUESTS"
    using ks(1,2) by simp
  have scan: "\<exists>r a xs ys. schedule_scan srt start dir = Some (r, a) \<and>
             seq r = xs @ [boundary dir] @ ys \<and> mset (xs @ ys) = mset req \<and>
             len r = length (seq r) \<and> len r = NUM_REQUESTS + 1"
  proof (cases dir)
    case DIR_LEFT
    obtain r where "schedule_scan srt start DIR_LEFT = Some (r, srt)" "seq r = rev ?A @ [0] @ ?B"
        "len r = NUM_REQUESTS + 1"
      using finish_seq[of "\<lparr>arr = srt, rseq = rev ?A @ 0 # ?B, rlen = NUM_REQUESTS + 1\<rparr>" start]
        n split_index_le[of srt start]
      by (auto simp: scan_left_closed)
    then show ?thesis using DIR_LEFT perm n k by (intro exI[of _ r] exI[of _ srt] exI[of _ "rev ?A"] exI[of _ ?B]) simp
  next
    case DIR_RIGHT
    obtain r where "schedule_scan srt start DIR_RIGHT = Some (r, srt)"
        "seq r = ?B @ [NUM_CYLINDERS - 1] @ rev ?A" "len r = NUM_REQUESTS + 1"
      using finish_seq[of "\<lparr>arr = srt, rseq = ?B @ (NUM_CYLINDERS - 1) # rev ?A, rlen = NUM_REQUESTS + 1\<rparr>" start]
        n split_index_le[of srt start]
      by (auto simp: scan_right_closed)
    then show ?thesis using DIR_RIGHT perm n k by (intro exI[of _ r] exI[of _ srt] exI[of _ ?B] exI[of _ "rev ?A"]) simp
  qed
  have cscan: "\<exists>r a xs ys. schedule_cscan srt start dir = Some (r, a) \<and>
             seq r = xs @ (if dir = DIR_LEFT then [0, NUM_CYLINDERS - 1] else [NUM_CYLINDERS - 1, 0]) @ ys \<and>
             mset (xs @ ys) = mset req \<and>
             len r = length (seq r) \<and> len r = NUM_REQUESTS + 2"
  proof (cases dir)
    case DIR_LEFT
    obtain r where "schedule_cscan srt start DIR_LEFT = Some (r, srt)"
        "seq r = rev ?A @ [0, NUM_CYLINDERS - 1] @ rev ?B" "len r = NUM_REQUESTS + 2"
      using finish_seq[of "\<lparr>arr = srt, rseq = rev ?A @ 0 # (NUM_CYLINDERS - 1) # rev ?B, rlen = NUM_REQUESTS + 2\<rparr>" start]
        n split_index_le[of srt start]
      by (auto simp: cscan_left_closed)
    then show ?thesis using DIR_LEFT perm n k by (intro exI[of _ r] exI[of _ srt] exI[of _ "rev ?A"] exI[of _ "rev ?B"]) simp
  next
    case DIR_RIGHT
    obtain r where "schedule_cscan srt start DIR_RIGHT = Some (r, srt)"
        "seq r = ?B @ [NUM_CYLINDERS - 1, 0] @ ?A" "len r = NUM_REQUESTS + 2"
      using finish_seq[of "\<lparr>arr = srt, rseq = ?B @ (NUM_CYLINDERS - 1) # 0 # ?A, rlen = NUM_REQUESTS + 2\<rparr>" start]
        n split_index_le[of srt start]
      by (auto simp: cscan_right_closed)
    then show ?thesis using DIR_RIGHT perm n k by (intro exI[of _ r] exI[of _ srt] exI[of _ ?B] exI[of _ ?A]) simp
  qed
  have look: "\<exists>r a. schedule_look srt start dir = Some (r, a) \<and> mset (seq r) = mset req \<and>
             len r = length (seq r) \<and> len r = NUM_REQUESTS"
  proof (cases dir)
    case DIR_LEFT
    then show ?thesis
      using finish_seq[of "\<lparr>arr = srt, rseq = rev ?A @ ?B, rlen = NUM_REQUESTS\<rparr>" start]
        n split_index_le[of srt start] perm
      by (auto simp: look_left_closed)
  next
    case DIR_RIGHT
    then show ?thesis
      using finish_seq[of "\<lparr>arr = srt, rseq = ?B @ rev ?A, rlen = NUM_REQUESTS\<rparr>" start]
        n split_index_le[of srt start] perm
      by (auto simp: look_right_closed)
  qed
  have clook: "\<exists>r a. schedule_clook srt start dir = Some (r, a) \<and> mset (seq r) = mset req \<and>
             len r = length (seq r) \<and> len r = NUM_REQUESTS"
  proof (cases dir)
    case DIR_LEFT
    then show ?thesis
      using finish_seq[of "\<lparr>arr = srt, rseq = rev ?A @ rev ?B, rlen = NUM_REQUESTS\<rparr>" start]
        n split_index_le[of srt start] perm
      by (auto simp: clook_left_closed)
  next
    case DIR_RIGHT
    then show ?thesis
      using finish_seq[of "\<lparr>arr = srt, rseq = ?B @ ?A, rlen = NUM_REQUESTS\<rparr>" start]
        n split_index_le[of srt start] perm
      by (auto simp: clook_right_closed)
  qed
  show ?thesis using fcfs sstf scan cscan look clook by (intro conjI)
qed

text \<open>
  The theorem at twenty requests that include both edges, their sorted copy, the head at 53
  and direction LEFT.
\<close>

theorem schedules_permute_witness:
  "length [98, 183, 37, 122, 14, 124, 65, 67, 10, 250, 199, 45, 0, 299, 150, 88, 201, 33, 77, 160 :: int]
     = NUM_REQUESTS \<and> in_range 53 \<and>
   sort [98, 183, 37, 122, 14, 124, 65, 67, 10, 250, 199, 45, 0, 299, 150, 88, 201, 33, 77, 160 :: int]
     = [0, 10, 14, 33, 37, 45, 65, 67, 77, 88, 98, 122, 124, 150, 160, 183, 199, 201, 250, 299] \<and>
   map_option (mset \<circ> seq \<circ> fst)
     (schedule_fcfs [98, 183, 37, 122, 14, 124, 65, 67, 10, 250, 199, 45, 0, 299, 150, 88, 201, 33, 77, 160] 53)
     = Some (mset [98, 183, 37, 122, 14, 124, 65, 67, 10, 250, 199, 45, 0, 299, 150, 88, 201, 33, 77, 160]) \<and>
   map_option (mset \<circ> seq \<circ> fst)
     (schedule_sstf [98, 183, 37, 122, 14, 124, 65, 67, 10, 250, 199, 45, 0, 299, 150, 88, 201, 33, 77, 160] 53)
     = Some (mset [98, 183, 37, 122, 14, 124, 65, 67, 10, 250, 199, 45, 0, 299, 150, 88, 201, 33, 77, 160]) \<and>
   (\<exists>r a xs ys.
      schedule_scan [0, 10, 14, 33, 37, 45, 65, 67, 77, 88, 98, 122, 124, 150, 160, 183, 199, 201, 250, 299]
        53 DIR_LEFT = Some (r, a) \<and> seq r = xs @ [0] @ ys \<and> len r = length (seq r) \<and>
      mset (xs @ ys)
        = mset [98, 183, 37, 122, 14, 124, 65, 67, 10, 250, 199, 45, 0, 299, 150, 88, 201, 33, 77, 160]) \<and>
   (\<exists>r a xs ys.
      schedule_cscan [0, 10, 14, 33, 37, 45, 65, 67, 77, 88, 98, 122, 124, 150, 160, 183, 199, 201, 250, 299]
        53 DIR_LEFT = Some (r, a) \<and> seq r = xs @ [0, NUM_CYLINDERS - 1] @ ys \<and> len r = length (seq r) \<and>
      mset (xs @ ys)
        = mset [98, 183, 37, 122, 14, 124, 65, 67, 10, 250, 199, 45, 0, 299, 150, 88, 201, 33, 77, 160]) \<and>
   map_option (mset \<circ> seq \<circ> fst)
     (schedule_look [0, 10, 14, 33, 37, 45, 65, 67, 77, 88, 98, 122, 124, 150, 160, 183, 199, 201, 250, 299]
        53 DIR_LEFT)
     = Some (mset [98, 183, 37, 122, 14, 124, 65, 67, 10, 250, 199, 45, 0, 299, 150, 88, 201, 33, 77, 160]) \<and>
   map_option (mset \<circ> seq \<circ> fst)
     (schedule_clook [0, 10, 14, 33, 37, 45, 65, 67, 77, 88, 98, 122, 124, 150, 160, 183, 199, 201, 250, 299]
        53 DIR_LEFT)
     = Some (mset [98, 183, 37, 122, 14, 124, 65, 67, 10, 250, 199, 45, 0, 299, 150, 88, 201, 33, 77, 160]) \<and>
   map_option (len \<circ> fst)
     (schedule_fcfs [98, 183, 37, 122, 14, 124, 65, 67, 10, 250, 199, 45, 0, 299, 150, 88, 201, 33, 77, 160] 53)
     = Some NUM_REQUESTS \<and>
   map_option (len \<circ> fst)
     (schedule_sstf [98, 183, 37, 122, 14, 124, 65, 67, 10, 250, 199, 45, 0, 299, 150, 88, 201, 33, 77, 160] 53)
     = Some NUM_REQUESTS \<and>
   map_option (len \<circ> fst)
     (schedule_look [0, 10, 14, 33, 37, 45, 65, 67, 77, 88, 98, 122, 124, 150, 160, 183, 199, 201, 250, 299]
        53 DIR_LEFT) = Some NUM_REQUESTS \<and>
   map_option (len \<circ> fst)
     (schedule_clook [0, 10, 14, 33, 37, 45, 65, 67, 77, 88, 98, 122, 124, 150, 160, 183, 199, 201, 250, 299]
        53 DIR_LEFT) = Some NUM_REQUESTS"
proof -
  let ?R = "[98, 183, 37, 122, 14, 124, 65, 67, 10, 250, 199, 45, 0, 299, 150, 88, 201, 33, 77, 160 :: int]"
  let ?S = "[0, 10, 14, 33, 37, 45, 65, 67, 77, 88, 98, 122, 124, 150, 160, 183, 199, 201, 250, 299 :: int]"
  have n: "length ?R = NUM_REQUESTS" by (simp add: NUM_REQUESTS_def)
  have c: "\<forall>c\<in>set ?R. in_range c" by (simp add: in_range_def NUM_CYLINDERS_def)
  have h: "in_range 53" by (simp add: in_range_def NUM_CYLINDERS_def)
  have s: "sort ?R = ?S" by code_simp
  have m: "mset ?S = mset ?R" by (simp only: mset_sort flip: s)
  show ?thesis
    using schedules_permute[OF n c h m, of DIR_LEFT] n h s by fastforce
qed

section \<open>The caller's arrays\<close>

lemma emit_frame: "emit v s = Some s' \<Longrightarrow> arr s' = arr s"
  by (auto simp: emit_def split: bind_splits)

lemma finish_frame: "finish s start = Some (r, a) \<Longrightarrow> a = arr s"
  by (auto simp: finish_def split: bind_splits)

lemma copy_up_frame: "copy_up i hi s = Some s' \<Longrightarrow> arr s' = arr s"
proof (induction "hi - i" arbitrary: i s)
  case 0
  then show ?case by (subst (asm) copy_up.simps) simp
next
  case (Suc k)
  then have lt: "i < hi" by simp
  from Suc.prems obtain v s1 where
    "emit v s = Some s1" "copy_up (Suc i) hi s1 = Some s'"
    using lt by (subst (asm) copy_up.simps) (auto split: bind_splits)
  moreover have "k = hi - Suc i" using Suc.hyps(2) by simp
  ultimately show ?case using Suc.hyps(1)[of "Suc i" s1] emit_frame[of v s s1] by simp
qed

lemma copy_down_frame: "copy_down i lo s = Some s' \<Longrightarrow> arr s' = arr s"
proof (induction "nat (i - lo + 1)" arbitrary: i s)
  case 0
  then show ?case by (subst (asm) copy_down.simps) simp
next
  case (Suc k)
  then have ge: "lo \<le> i" by simp
  from Suc.prems obtain v s1 where
    "emit v s = Some s1" "copy_down (i - 1) lo s1 = Some s'"
    using ge by (subst (asm) copy_down.simps) (auto split: bind_splits)
  moreover have "k = nat (i - 1 - lo + 1)" using Suc.hyps(2) by simp
  ultimately show ?case using Suc.hyps(1)[of "i - 1" s1] emit_frame[of v s s1] by simp
qed

lemma fcfs_loop_frame: "fcfs_loop i s = Some s' \<Longrightarrow> arr s' = arr s"
proof (induction "NUM_REQUESTS - i" arbitrary: i s)
  case 0
  then show ?case by (subst (asm) fcfs_loop.simps) simp
next
  case (Suc k)
  then have lt: "i < NUM_REQUESTS" by simp
  from Suc.prems obtain q where
    "fcfs_loop (Suc i) (s\<lparr>rseq := q\<rparr>) = Some s'"
    using lt by (subst (asm) fcfs_loop.simps) (auto split: bind_splits)
  moreover have "k = NUM_REQUESTS - Suc i" using Suc.hyps(2) by simp
  ultimately show ?case using Suc.hyps(1)[of "Suc i" "s\<lparr>rseq := q\<rparr>"] by simp
qed

lemma sstf_loop_frame: "sstf_loop n s visited head cnt = Some s' \<Longrightarrow> arr s' = arr s"
proof (induction "n - cnt" arbitrary: s visited head cnt)
  case 0
  then show ?case by (subst (asm) sstf_loop.simps) simp
next
  case (Suc k)
  then have lt: "cnt < n" by simp
  from Suc.prems obtain sq visited' q where
    "sstf_loop n (s\<lparr>rseq := sq\<rparr>) visited' q (Suc cnt) = Some s'"
    using lt by (subst (asm) sstf_loop.simps) (auto split: bind_splits)
  moreover have "k = n - Suc cnt" using Suc.hyps(2) by simp
  ultimately show ?case using Suc.hyps(1)[of "Suc cnt" "s\<lparr>rseq := sq\<rparr>" visited' q] by simp
qed

lemma schedule_fcfs_frame: "schedule_fcfs req start = Some (r, a) \<Longrightarrow> a = req"
  by (auto simp: schedule_fcfs_def split: bind_splits dest!: fcfs_loop_frame finish_frame)

lemma schedule_sstf_frame: "schedule_sstf req start = Some (r, a) \<Longrightarrow> a = req"
  by (auto simp: schedule_sstf_def sstf_body_def split: bind_splits
      dest!: sstf_loop_frame finish_frame)

lemma schedule_scan_frame: "schedule_scan srt start dir = Some (r, a) \<Longrightarrow> a = srt"
  by (auto simp: schedule_scan_def split: bind_splits if_splits
      dest!: copy_up_frame copy_down_frame emit_frame finish_frame)

lemma schedule_cscan_frame: "schedule_cscan srt start dir = Some (r, a) \<Longrightarrow> a = srt"
  by (auto simp: schedule_cscan_def split: bind_splits if_splits
      dest!: copy_up_frame copy_down_frame emit_frame finish_frame)

lemma schedule_look_frame: "schedule_look srt start dir = Some (r, a) \<Longrightarrow> a = srt"
  by (auto simp: schedule_look_def split: bind_splits if_splits
      dest!: copy_up_frame copy_down_frame emit_frame finish_frame)

lemma schedule_clook_frame: "schedule_clook srt start dir = Some (r, a) \<Longrightarrow> a = srt"
  by (auto simp: schedule_clook_def split: bind_splits if_splits
      dest!: copy_up_frame copy_down_frame emit_frame finish_frame)

text \<open>
  C9. No scheduling function changes the array it is handed. For every valid input each of
  the six functions returns, and the array it hands back is the array it received, cell
  for cell; and for any input whatever, a call that returns hands back the array it
  received. A later call therefore receives the same arrays whichever calls went before.
\<close>

theorem inputs_unchanged:
  assumes "length req = NUM_REQUESTS" "\<forall>c\<in>set req. in_range c" "in_range start"
    "length srt = NUM_REQUESTS"
  shows "(\<exists>r. schedule_fcfs req start = Some (r, req)) \<and>
         (\<exists>r. schedule_sstf req start = Some (r, req)) \<and>
         (\<exists>r. schedule_scan srt start dir = Some (r, srt)) \<and>
         (\<exists>r. schedule_cscan srt start dir = Some (r, srt)) \<and>
         (\<exists>r. schedule_look srt start dir = Some (r, srt)) \<and>
         (\<exists>r. schedule_clook srt start dir = Some (r, srt)) \<and>
         (\<forall>q s r a. schedule_fcfs q s = Some (r, a) \<longrightarrow> a = q) \<and>
         (\<forall>q s r a. schedule_sstf q s = Some (r, a) \<longrightarrow> a = q) \<and>
         (\<forall>q s d r a. schedule_scan q s d = Some (r, a) \<longrightarrow> a = q) \<and>
         (\<forall>q s d r a. schedule_cscan q s d = Some (r, a) \<longrightarrow> a = q) \<and>
         (\<forall>q s d r a. schedule_look q s d = Some (r, a) \<longrightarrow> a = q) \<and>
         (\<forall>q s d r a. schedule_clook q s d = Some (r, a) \<longrightarrow> a = q)"
proof -
  let ?k = "split_index srt start"
  let ?A = "take ?k srt" and ?B = "drop ?k srt"
  have k: "?k \<le> NUM_REQUESTS" using split_index_le[of srt start] assms(4) by simp
  have fcfs: "\<exists>r. schedule_fcfs req start = Some (r, req)"
    using finish_seq[of "\<lparr>arr = req, rseq = req, rlen = NUM_REQUESTS\<rparr>" start] assms(1)
    by (auto simp: fcfs_closed)
  have sstf: "\<exists>r. schedule_sstf req start = Some (r, req)"
    using sstf_finish[OF assms(1-3)] by blast
  have scan: "\<exists>r. schedule_scan srt start dir = Some (r, srt)"
  proof (cases dir)
    case DIR_LEFT
    then show ?thesis
      using finish_seq[of "\<lparr>arr = srt, rseq = rev ?A @ 0 # ?B, rlen = NUM_REQUESTS + 1\<rparr>" start]
        assms(4) k
      by (auto simp: scan_left_closed)
  next
    case DIR_RIGHT
    then show ?thesis
      using finish_seq[of "\<lparr>arr = srt, rseq = ?B @ (NUM_CYLINDERS - 1) # rev ?A,
          rlen = NUM_REQUESTS + 1\<rparr>" start] assms(4) k
      by (auto simp: scan_right_closed)
  qed
  have cscan: "\<exists>r. schedule_cscan srt start dir = Some (r, srt)"
  proof (cases dir)
    case DIR_LEFT
    then show ?thesis
      using finish_seq[of "\<lparr>arr = srt, rseq = rev ?A @ 0 # (NUM_CYLINDERS - 1) # rev ?B,
          rlen = NUM_REQUESTS + 2\<rparr>" start] assms(4) k
      by (auto simp: cscan_left_closed)
  next
    case DIR_RIGHT
    then show ?thesis
      using finish_seq[of "\<lparr>arr = srt, rseq = ?B @ (NUM_CYLINDERS - 1) # 0 # ?A,
          rlen = NUM_REQUESTS + 2\<rparr>" start] assms(4) k
      by (auto simp: cscan_right_closed)
  qed
  have look: "\<exists>r. schedule_look srt start dir = Some (r, srt)"
  proof (cases dir)
    case DIR_LEFT
    then show ?thesis
      using finish_seq[of "\<lparr>arr = srt, rseq = rev ?A @ ?B, rlen = NUM_REQUESTS\<rparr>" start]
        assms(4) k
      by (auto simp: look_left_closed)
  next
    case DIR_RIGHT
    then show ?thesis
      using finish_seq[of "\<lparr>arr = srt, rseq = ?B @ rev ?A, rlen = NUM_REQUESTS\<rparr>" start]
        assms(4) k
      by (auto simp: look_right_closed)
  qed
  have clook: "\<exists>r. schedule_clook srt start dir = Some (r, srt)"
  proof (cases dir)
    case DIR_LEFT
    then show ?thesis
      using finish_seq[of "\<lparr>arr = srt, rseq = rev ?A @ rev ?B, rlen = NUM_REQUESTS\<rparr>" start]
        assms(4) k
      by (auto simp: clook_left_closed)
  next
    case DIR_RIGHT
    then show ?thesis
      using finish_seq[of "\<lparr>arr = srt, rseq = ?B @ ?A, rlen = NUM_REQUESTS\<rparr>" start]
        assms(4) k
      by (auto simp: clook_right_closed)
  qed
  show ?thesis
    using fcfs sstf scan cscan look clook
      schedule_fcfs_frame schedule_sstf_frame schedule_scan_frame schedule_cscan_frame
      schedule_look_frame schedule_clook_frame
    by (intro conjI allI impI) blast+
qed

text \<open>
  The theorem at twenty requests and their sorted copy, head at 53, direction RIGHT: each
  call hands back the array it was given.
\<close>

theorem inputs_unchanged_witness:
  "length [98, 183, 37, 122, 14, 124, 65, 67, 10, 250, 199, 45, 0, 299, 150, 88, 201, 33, 77, 160 :: int]
     = NUM_REQUESTS \<and> in_range 53 \<and>
   length [0, 10, 14, 33, 37, 45, 65, 67, 77, 88, 98, 122, 124, 150, 160, 183, 199, 201, 250, 299 :: int]
     = NUM_REQUESTS \<and>
   map_option snd
     (schedule_fcfs [98, 183, 37, 122, 14, 124, 65, 67, 10, 250, 199, 45, 0, 299, 150, 88, 201, 33, 77, 160] 53)
     = Some [98, 183, 37, 122, 14, 124, 65, 67, 10, 250, 199, 45, 0, 299, 150, 88, 201, 33, 77, 160] \<and>
   map_option snd
     (schedule_sstf [98, 183, 37, 122, 14, 124, 65, 67, 10, 250, 199, 45, 0, 299, 150, 88, 201, 33, 77, 160] 53)
     = Some [98, 183, 37, 122, 14, 124, 65, 67, 10, 250, 199, 45, 0, 299, 150, 88, 201, 33, 77, 160] \<and>
   map_option snd
     (schedule_scan [0, 10, 14, 33, 37, 45, 65, 67, 77, 88, 98, 122, 124, 150, 160, 183, 199, 201, 250, 299]
        53 DIR_RIGHT)
     = Some [0, 10, 14, 33, 37, 45, 65, 67, 77, 88, 98, 122, 124, 150, 160, 183, 199, 201, 250, 299] \<and>
   map_option snd
     (schedule_cscan [0, 10, 14, 33, 37, 45, 65, 67, 77, 88, 98, 122, 124, 150, 160, 183, 199, 201, 250, 299]
        53 DIR_RIGHT)
     = Some [0, 10, 14, 33, 37, 45, 65, 67, 77, 88, 98, 122, 124, 150, 160, 183, 199, 201, 250, 299] \<and>
   map_option snd
     (schedule_look [0, 10, 14, 33, 37, 45, 65, 67, 77, 88, 98, 122, 124, 150, 160, 183, 199, 201, 250, 299]
        53 DIR_RIGHT)
     = Some [0, 10, 14, 33, 37, 45, 65, 67, 77, 88, 98, 122, 124, 150, 160, 183, 199, 201, 250, 299] \<and>
   map_option snd
     (schedule_clook [0, 10, 14, 33, 37, 45, 65, 67, 77, 88, 98, 122, 124, 150, 160, 183, 199, 201, 250, 299]
        53 DIR_RIGHT)
     = Some [0, 10, 14, 33, 37, 45, 65, 67, 77, 88, 98, 122, 124, 150, 160, 183, 199, 201, 250, 299]"
proof -
  let ?R = "[98, 183, 37, 122, 14, 124, 65, 67, 10, 250, 199, 45, 0, 299, 150, 88, 201, 33, 77, 160 :: int]"
  let ?S = "[0, 10, 14, 33, 37, 45, 65, 67, 77, 88, 98, 122, 124, 150, 160, 183, 199, 201, 250, 299 :: int]"
  have n: "length ?R = NUM_REQUESTS" by (simp add: NUM_REQUESTS_def)
  have c: "\<forall>c\<in>set ?R. in_range c" by (simp add: in_range_def NUM_CYLINDERS_def)
  have h: "in_range 53" by (simp add: in_range_def NUM_CYLINDERS_def)
  have m: "length ?S = NUM_REQUESTS" by (simp add: NUM_REQUESTS_def)
  have "(\<exists>r. schedule_fcfs ?R 53 = Some (r, ?R)) \<and>
         (\<exists>r. schedule_sstf ?R 53 = Some (r, ?R)) \<and>
         (\<exists>r. schedule_scan ?S 53 DIR_RIGHT = Some (r, ?S)) \<and>
         (\<exists>r. schedule_cscan ?S 53 DIR_RIGHT = Some (r, ?S)) \<and>
         (\<exists>r. schedule_look ?S 53 DIR_RIGHT = Some (r, ?S)) \<and>
         (\<exists>r. schedule_clook ?S 53 DIR_RIGHT = Some (r, ?S))"
    using inputs_unchanged[OF n c h m, of DIR_RIGHT] by (elim conjE) (intro conjI)
  then show ?thesis using n h m by (elim conjE exE) simp
qed

section \<open>LOOK against SCAN\<close>

lemma finish_in_range:
  assumes "rlen s = length (rseq s)" "\<forall>c\<in>set (rseq s). in_range c" "in_range start"
    "length (rseq s) \<le> SEQ_CAPACITY"
  shows "finish s start =
           Some (\<lparr>seq = rseq s, len = length (rseq s), movement = movement_sum start (rseq s)\<rparr>, arr s)"
  using assms by (intro finish_exact capacity_no_overflow)

lemma detour_low:
  assumes "0 \<le> p" "\<forall>b\<in>set B. p \<le> b"
  shows "movement_sum p (0 # B) = movement_sum p B + (if B = [] then p else 2 * p)"
  using assms by (cases B) auto

lemma detour_high:
  assumes "q \<le> M" "\<forall>a\<in>set R. a \<le> q"
  shows "movement_sum q (M # R) = movement_sum q R + (if R = [] then M - q else 2 * (M - q))"
  using assms by (cases R) auto

lemma last_start_cases: "last (start # xs) = start \<or> last (start # xs) \<in> set xs"
  by simp

text \<open>
  C7, as amended. For every valid input (an ascending list of \<open>NUM_REQUESTS\<close> valid
  cylinders, a valid start position, either direction) the total movement of
  \<^verbatim>\<open>schedule_look\<close> is at most that of \<^verbatim>\<open>schedule_scan\<close>, and it is strictly smaller whenever the
  boundary cylinder in the direction of travel is not a requested cylinder and the head
  does not start on it.
\<close>

theorem look_le_scan:
  assumes "length srt = NUM_REQUESTS" "sorted srt" "\<forall>c\<in>set srt. in_range c" "in_range start"
  shows "\<exists>rs rl. schedule_scan srt start dir = Some (rs, srt) \<and>
           schedule_look srt start dir = Some (rl, srt) \<and>
           movement rl \<le> movement rs \<and>
           (boundary dir \<notin> set srt \<and> start \<noteq> boundary dir \<longrightarrow> movement rl < movement rs)"
proof -
  let ?k = "split_index srt start"
  let ?A = "take ?k srt" and ?B = "drop ?k srt"
  let ?M = "NUM_CYLINDERS - 1"
  have k: "?k \<le> NUM_REQUESTS" using split_index_le[of srt start] assms(1) by simp
  have rA: "\<forall>c\<in>set ?A. in_range c" using in_range_take[OF assms(3)] by blast
  have rB: "\<forall>c\<in>set ?B. in_range c" using in_range_drop[OF assms(3)] by blast
  have r0: "in_range 0" and rM: "in_range ?M" by (simp_all add: in_range_def NUM_CYLINDERS_def)
  have lowA: "\<forall>a\<in>set ?A. a < start" using take_split_below by blast
  have highB: "\<forall>b\<in>set ?B. start \<le> b" using drop_split_above[OF assms(2)] by blast
  have sub: "set ?A \<subseteq> set srt" "set ?B \<subseteq> set srt"
    by (simp_all add: set_take_subset set_drop_subset)
  show ?thesis
  proof (cases dir)
    case DIR_LEFT
    let ?p = "last (start # rev ?A)"
    have p: "?p = start \<or> ?p \<in> set ?A" using last_start_cases[of start "rev ?A"] by simp
    have p0: "0 \<le> ?p" using p assms(4) rA by (auto simp: in_range_def)
    have pB: "\<forall>b\<in>set ?B. ?p \<le> b" using p lowA highB by force
    have scan: "schedule_scan srt start dir =
        Some (\<lparr>seq = rev ?A @ 0 # ?B, len = length (rev ?A @ 0 # ?B),
               movement = movement_sum start (rev ?A @ 0 # ?B)\<rparr>, srt)"
      unfolding DIR_LEFT scan_left_closed[OF assms(1)]
      using finish_in_range[of "\<lparr>arr = srt, rseq = rev ?A @ 0 # ?B, rlen = NUM_REQUESTS + 1\<rparr>" start]
        rA rB r0 assms(1,4) k requests_fit by auto
    have look: "schedule_look srt start dir =
        Some (\<lparr>seq = rev ?A @ ?B, len = length (rev ?A @ ?B),
               movement = movement_sum start (rev ?A @ ?B)\<rparr>, srt)"
      unfolding DIR_LEFT look_left_closed[OF assms(1)]
      using finish_in_range[of "\<lparr>arr = srt, rseq = rev ?A @ ?B, rlen = NUM_REQUESTS\<rparr>" start]
        rA rB assms(1,4) k requests_fit by auto
    have diff: "movement_sum start (rev ?A @ 0 # ?B) =
        movement_sum start (rev ?A @ ?B) + (if ?B = [] then ?p else 2 * ?p)"
      unfolding movement_sum_append using detour_low[OF p0 pB] by simp
    have le: "movement_sum start (rev ?A @ ?B) \<le> movement_sum start (rev ?A @ 0 # ?B)"
      using diff p0 by (simp split: if_splits)
    have strict: "movement_sum start (rev ?A @ ?B) < movement_sum start (rev ?A @ 0 # ?B)"
      if "0 \<notin> set srt" "start \<noteq> 0"
    proof -
      have "?p \<noteq> 0" using p that sub(1) by auto
      then have "0 < ?p" using p0 by simp
      then show ?thesis using diff by (simp split: if_splits)
    qed
    show ?thesis using scan look le strict DIR_LEFT by auto
  next
    case DIR_RIGHT
    let ?q = "last (start # ?B)"
    have q: "?q = start \<or> ?q \<in> set ?B" by (rule last_start_cases)
    have qM: "?q \<le> ?M" using q assms(4) rB by (auto simp: in_range_def)
    have qA: "\<forall>a\<in>set (rev ?A). a \<le> ?q" using q lowA highB by force
    have scan: "schedule_scan srt start dir =
        Some (\<lparr>seq = ?B @ ?M # rev ?A, len = length (?B @ ?M # rev ?A),
               movement = movement_sum start (?B @ ?M # rev ?A)\<rparr>, srt)"
      unfolding DIR_RIGHT scan_right_closed[OF assms(1)]
      using finish_in_range[of "\<lparr>arr = srt, rseq = ?B @ ?M # rev ?A, rlen = NUM_REQUESTS + 1\<rparr>" start]
        rA rB rM assms(1,4) k requests_fit by auto
    have look: "schedule_look srt start dir =
        Some (\<lparr>seq = ?B @ rev ?A, len = length (?B @ rev ?A),
               movement = movement_sum start (?B @ rev ?A)\<rparr>, srt)"
      unfolding DIR_RIGHT look_right_closed[OF assms(1)]
      using finish_in_range[of "\<lparr>arr = srt, rseq = ?B @ rev ?A, rlen = NUM_REQUESTS\<rparr>" start]
        rA rB assms(1,4) k requests_fit by auto
    have diff: "movement_sum start (?B @ ?M # rev ?A) =
        movement_sum start (?B @ rev ?A) + (if rev ?A = [] then ?M - ?q else 2 * (?M - ?q))"
      unfolding movement_sum_append using detour_high[OF qM qA] by simp
    have le: "movement_sum start (?B @ rev ?A) \<le> movement_sum start (?B @ ?M # rev ?A)"
      using diff qM by (simp split: if_splits)
    have strict: "movement_sum start (?B @ rev ?A) < movement_sum start (?B @ ?M # rev ?A)"
      if "?M \<notin> set srt" "start \<noteq> ?M"
    proof -
      have "?q \<noteq> ?M" using q that sub(2) by auto
      then have "?q < ?M" using qM by simp
      then show ?thesis using diff by (simp split: if_splits)
    qed
    show ?thesis using scan look le strict DIR_RIGHT by auto
  qed
qed

text \<open>
  The theorem at twenty sorted requests that include neither edge, head at 53, direction
  RIGHT: LOOK moves 522 cylinders, SCAN 540.
\<close>

theorem look_le_scan_witness:
  "length [5, 10, 14, 33, 37, 45, 65, 67, 77, 88, 98, 122, 124, 150, 160, 183, 199, 201, 250, 290 :: int]
     = NUM_REQUESTS \<and>
   sorted [5, 10, 14, 33, 37, 45, 65, 67, 77, 88, 98, 122, 124, 150, 160, 183, 199, 201, 250, 290 :: int] \<and>
   in_range 53 \<and>
   boundary DIR_RIGHT \<notin>
     set [5, 10, 14, 33, 37, 45, 65, 67, 77, 88, 98, 122, 124, 150, 160, 183, 199, 201, 250, 290] \<and>
   53 \<noteq> boundary DIR_RIGHT \<and>
   map_option (movement \<circ> fst)
     (schedule_look [5, 10, 14, 33, 37, 45, 65, 67, 77, 88, 98, 122, 124, 150, 160, 183, 199, 201, 250, 290]
        53 DIR_RIGHT) = Some 522 \<and>
   map_option (movement \<circ> fst)
     (schedule_scan [5, 10, 14, 33, 37, 45, 65, 67, 77, 88, 98, 122, 124, 150, 160, 183, 199, 201, 250, 290]
        53 DIR_RIGHT) = Some 540 \<and>
   (\<exists>rs rl.
      schedule_scan [5, 10, 14, 33, 37, 45, 65, 67, 77, 88, 98, 122, 124, 150, 160, 183, 199, 201, 250, 290]
        53 DIR_RIGHT = Some (rs, [5, 10, 14, 33, 37, 45, 65, 67, 77, 88, 98, 122, 124, 150, 160, 183, 199, 201, 250, 290]) \<and>
      schedule_look [5, 10, 14, 33, 37, 45, 65, 67, 77, 88, 98, 122, 124, 150, 160, 183, 199, 201, 250, 290]
        53 DIR_RIGHT = Some (rl, [5, 10, 14, 33, 37, 45, 65, 67, 77, 88, 98, 122, 124, 150, 160, 183, 199, 201, 250, 290]) \<and>
      movement rl < movement rs)"
proof -
  let ?L = "[5, 10, 14, 33, 37, 45, 65, 67, 77, 88, 98, 122, 124, 150, 160, 183, 199, 201, 250, 290 :: int]"
  have n: "length ?L = NUM_REQUESTS" by (simp add: NUM_REQUESTS_def)
  have s: "sorted ?L" by simp
  have c: "\<forall>c\<in>set ?L. in_range c" by (simp add: in_range_def NUM_CYLINDERS_def)
  have h: "in_range 53" by (simp add: in_range_def NUM_CYLINDERS_def)
  have b: "boundary DIR_RIGHT \<notin> set ?L" "53 \<noteq> boundary DIR_RIGHT"
    by (simp_all add: NUM_CYLINDERS_def)
  have l: "map_option (movement \<circ> fst) (schedule_look ?L 53 DIR_RIGHT) = Some 522" by code_simp
  have r: "map_option (movement \<circ> fst) (schedule_scan ?L 53 DIR_RIGHT) = Some 540" by code_simp
  have "\<exists>rs rl. schedule_scan ?L 53 DIR_RIGHT = Some (rs, ?L) \<and>
           schedule_look ?L 53 DIR_RIGHT = Some (rl, ?L) \<and> movement rl < movement rs"
    using look_le_scan[OF n s c h, of DIR_RIGHT] b by blast
  then show ?thesis using n s h b l r by (intro conjI)
qed

text \<open>
  The strictness the claim words, on at least one side unless the requests span both disk
  edges, does not hold when the head starts on an edge: for the requests 0, 1, ..., 19 and
  the head at 299 the boundary of direction RIGHT, cylinder 299, is not a request and the
  requests do not span both edges, and LOOK and SCAN move the head 299 cylinders each, in
  direction RIGHT and in direction LEFT.
\<close>

theorem look_equals_scan_at_edge:
  "length [0, 1, 2, 3, 4, 5, 6, 7, 8, 9, 10, 11, 12, 13, 14, 15, 16, 17, 18, 19 :: int] = NUM_REQUESTS \<and>
   sorted [0, 1, 2, 3, 4, 5, 6, 7, 8, 9, 10, 11, 12, 13, 14, 15, 16, 17, 18, 19 :: int] \<and>
   in_range 299 \<and>
   boundary DIR_RIGHT \<notin> set [0, 1, 2, 3, 4, 5, 6, 7, 8, 9, 10, 11, 12, 13, 14, 15, 16, 17, 18, 19] \<and>
   map_option (movement \<circ> fst)
     (schedule_look [0, 1, 2, 3, 4, 5, 6, 7, 8, 9, 10, 11, 12, 13, 14, 15, 16, 17, 18, 19] 299 DIR_RIGHT)
     = Some 299 \<and>
   map_option (movement \<circ> fst)
     (schedule_scan [0, 1, 2, 3, 4, 5, 6, 7, 8, 9, 10, 11, 12, 13, 14, 15, 16, 17, 18, 19] 299 DIR_RIGHT)
     = Some 299 \<and>
   map_option (movement \<circ> fst)
     (schedule_look [0, 1, 2, 3, 4, 5, 6, 7, 8, 9, 10, 11, 12, 13, 14, 15, 16, 17, 18, 19] 299 DIR_LEFT)
     = Some 299 \<and>
   map_option (movement \<circ> fst)
     (schedule_scan [0, 1, 2, 3, 4, 5, 6, 7, 8, 9, 10, 11, 12, 13, 14, 15, 16, 17, 18, 19] 299 DIR_LEFT)
     = Some 299"
  by code_simp

end
